theory Spec2Isabelle
  imports Complex_Main
begin

section \<open>Data model of \<^verbatim>\<open>logic_gen_tool.py\<close>\<close>

text \<open>
  A coordinate is a Python 3-tuple of integers.  The index of a gate in
  \<^verbatim>\<open>Circuit.logic_gates\<close> (its slot) is a natural number: the only values ever stored
  are readings of \<^verbatim>\<open>id_counter\<close>, which starts at 0 and is only incremented.
\<close>

type_synonym pos = "int \<times> int \<times> int"

datatype error = ArityMismatch | IndexError | TypeError | ZeroDivisionError

record LogicGate =
  position :: pos
  mode :: nat
  color :: string
  connections :: "nat list"

text \<open>
  \<^verbatim>\<open>index_lut\<close> is a dict of dicts of dicts: \<^verbatim>\<open>index_lut[px][py][pz]\<close> is a slot.
  Every inner dict is created by \<^verbatim>\<open>generate_lut\<close> and referenced by its parent only, so
  the nesting is modelled by value.
\<close>

type_synonym lut3 = "int \<rightharpoonup> nat"
type_synonym lut2 = "int \<rightharpoonup> lut3"
type_synonym lut1 = "int \<rightharpoonup> lut2"

record Circuit =
  logic_gates :: "LogicGate list"
  index_lut :: lut1
  id_counter :: nat

subsection \<open>LogicGate\<close>

text \<open>\<^verbatim>\<open>str.lower\<close> on the ASCII letters (the mode names are ASCII).\<close>

definition lower_char :: "char \<Rightarrow> char" where
  "lower_char ch =
     (let k = (of_char ch :: nat) in if 65 \<le> k \<and> k \<le> 90 then char_of (k + 32) else ch)"

definition mode_table :: "(string \<times> nat) list" where
  "mode_table =
     [(''and'', 0), (''or'', 1), (''xor'', 2), (''nand'', 3), (''nor'', 4), (''xnor'', 5)]"

definition LogicGate_init :: "pos \<Rightarrow> string \<Rightarrow> string \<Rightarrow> LogicGate" where
  "LogicGate_init p m col =
     \<lparr> position = p,
       mode = (case map_of mode_table (map lower_char m) of None \<Rightarrow> 0 | Some k \<Rightarrow> k),
       color = col,
       connections = [] \<rparr>"

definition connect_to :: "LogicGate \<Rightarrow> nat \<Rightarrow> LogicGate" where
  "connect_to g ident = g\<lparr>connections := connections g @ [ident]\<rparr>"

subsection \<open>Circuit\<close>

definition Circuit_init :: Circuit where
  "Circuit_init = \<lparr> logic_gates = [], index_lut = Map.empty, id_counter = 0 \<rparr>"

fun is_solid :: "Circuit \<Rightarrow> pos \<Rightarrow> bool" where
  "is_solid c (px, py, pz) =
     (case index_lut c px of
        None \<Rightarrow> False
      | Some d1 \<Rightarrow>
          (case d1 py of
             None \<Rightarrow> False
           | Some d2 \<Rightarrow> (case d2 pz of None \<Rightarrow> False | Some _ \<Rightarrow> True)))"

text \<open>\<^verbatim>\<open>d.get(k, {})\<close>: the value at \<open>k\<close>, or a fresh empty dict.\<close>

definition get_or_empty :: "('k \<rightharpoonup> ('j \<rightharpoonup> 'v)) \<Rightarrow> 'k \<Rightarrow> ('j \<rightharpoonup> 'v)" where
  "get_or_empty d k = (case d k of None \<Rightarrow> Map.empty | Some e \<Rightarrow> e)"

fun get_block :: "Circuit \<Rightarrow> pos \<Rightarrow> nat option" where
  "get_block c (px, py, pz) = get_or_empty (get_or_empty (index_lut c) px) py pz"

fun generate_lut :: "Circuit \<Rightarrow> pos \<Rightarrow> Circuit" where
  "generate_lut c (px, py, pz) =
     (let l1 = index_lut c;
          l1 = (if l1 px = None then l1(px \<mapsto> Map.empty) else l1);
          l2 = get_or_empty l1 px;
          l2 = (if l2 py = None then l2(py \<mapsto> Map.empty) else l2);
          l3 = get_or_empty l2 py;
          l3 = (if l3 pz = None then l3(pz \<mapsto> id_counter c) else l3)
      in c\<lparr> index_lut := l1(px \<mapsto> l2(py \<mapsto> l3)), id_counter := id_counter c + 1 \<rparr>)"

definition add_logic :: "Circuit \<Rightarrow> LogicGate \<Rightarrow> Circuit" where
  "add_logic c logic_gate =
     generate_lut (c\<lparr> logic_gates := logic_gates c @ [logic_gate] \<rparr>) (position logic_gate)"

text \<open>
  The statement \<^verbatim>\<open>self.logic_gates[self.get_block(a)].connect_to(self.get_block(b))\<close>.
  Indexing a list with \<^verbatim>\<open>None\<close> is a \<^verbatim>\<open>TypeError\<close>, indexing past the end an
  \<^verbatim>\<open>IndexError\<close>.  Every call site is guarded by \<^verbatim>\<open>is_solid\<close>, so neither lookup is
  \<^verbatim>\<open>None\<close> there (lemma \<open>is_solid_get_block\<close> below); connection targets are typed
  \<^verbatim>\<open>int\<close> in the source.
\<close>

definition connect :: "Circuit \<Rightarrow> pos \<Rightarrow> pos \<Rightarrow> error + Circuit" where
  "connect c a b =
     (case get_block c a of
        None \<Rightarrow> Inl TypeError
      | Some i \<Rightarrow>
          (case get_block c b of
             None \<Rightarrow> Inl TypeError
           | Some j \<Rightarrow>
               if i < length (logic_gates c)
               then Inr (c\<lparr> logic_gates := (logic_gates c)[i := connect_to (logic_gates c ! i) j] \<rparr>)
               else Inl IndexError))"

text \<open>A \<^verbatim>\<open>for\<close> loop whose body may raise: the first error ends the loop.\<close>

fun for_each :: "('a \<Rightarrow> 's \<Rightarrow> error + 's) \<Rightarrow> 'a list \<Rightarrow> 's \<Rightarrow> error + 's" where
  "for_each body [] s = Inr s"
| "for_each body (x # xs) s =
     (case body x s of Inl e \<Rightarrow> Inl e | Inr s' \<Rightarrow> for_each body xs s')"

definition wire_gates :: "Circuit \<Rightarrow> pos list \<Rightarrow> pos list \<Rightarrow> error + Circuit" where
  "wire_gates c input_pos output_pos =
     (if length input_pos = length output_pos then
        for_each (\<lambda>(a, b) c. if \<not> (is_solid c a \<and> is_solid c b) then Inr c else connect c a b)
          (zip input_pos output_pos) c
      else if length input_pos = 1 then
        (if \<not> is_solid c (hd input_pos) then Inr c
         else for_each (\<lambda>b c. if \<not> is_solid c b then Inr c else connect c (hd input_pos) b)
                output_pos c)
      else if length output_pos = 1 then
        (if \<not> is_solid c (hd output_pos) then Inr c
         else for_each (\<lambda>a c. if \<not> is_solid c a then Inr c else connect c a (hd output_pos))
                input_pos c)
      else Inl ArityMismatch)"

text \<open>
  \<^verbatim>\<open>to_blueprint\<close> up to \<^verbatim>\<open>json.dumps\<close>: the list \<^verbatim>\<open>childs\<close>, one record per gate in list
  order.  The constant fields (\<^verbatim>\<open>active\<close>, \<^verbatim>\<open>joints\<close>, \<^verbatim>\<open>shapeId\<close>, the axes) are left out.
\<close>

record child =
  child_color :: string
  controllers :: "nat list"
  child_id :: nat
  child_mode :: nat
  child_pos :: pos

definition to_blueprint :: "Circuit \<Rightarrow> child list" where
  "to_blueprint c =
     map (\<lambda>(index, logic).
            \<lparr> child_color = color logic, controllers = connections logic, child_id = index,
              child_mode = mode logic, child_pos = position logic \<rparr>)
         (enumerate 0 (logic_gates c))"

section \<open>The circuit as an object with mutable dicts\<close>

text \<open>
  The by-value model above cannot express that a method leaves the object alone.  For that
  the circuit is modelled as Python holds it: a \<^verbatim>\<open>Circuit\<close> object whose attribute
  \<^verbatim>\<open>index_lut\<close> refers to a dict object, whose values refer to further dict objects.
  The dict objects live in a store and are addressed by their index in it; a value held by
  an attribute or by a dict is a reference to a dict object or an int.  The gate list and
  the counter are kept by value.  The two models are related by \<open>circuit_of\<close> below:
  on the states that \<^verbatim>\<open>Circuit()\<close> and \<^verbatim>\<open>add_logic\<close> produce, the methods on the object
  do what the by-value methods do (lemmas \<open>add_logic_obj_refines\<close>,
  \<open>is_solid_obj_refines\<close>, \<open>get_block_obj_refines\<close>).
\<close>

datatype val = Ref nat | Num nat

type_synonym dict = "int \<rightharpoonup> val"

text \<open>
  What the dict operations raise: a dict method called on an int is an
  \<^verbatim>\<open>AttributeError\<close>, a missing key under \<^verbatim>\<open>d[k]\<close> a \<^verbatim>\<open>KeyError\<close>, subscripting an int
  Python's \<^verbatim>\<open>TypeError\<close> (\<open>NotSubscriptable\<close> here).  Python has no reference to an
  object that does not exist; in the model an address outside the store is the fault
  \<open>NoSuchObject\<close>.
\<close>

datatype fault = AttributeError | KeyError | NotSubscriptable | NoSuchObject

record Circuit_obj =
  obj_logic_gates :: "LogicGate list"
  obj_index_lut :: val
  obj_id_counter :: nat
  dicts :: "dict list"

text \<open>
  A method or statement is an action on the object: it returns a value or raises, and
  leaves a state.  \<open>then_do\<close> is sequencing; an exception ends the sequence and keeps
  the state reached.
\<close>

type_synonym 'a action = "Circuit_obj \<Rightarrow> (fault + 'a) \<times> Circuit_obj"

definition return_val :: "'a \<Rightarrow> 'a action" where
  "return_val x s = (Inr x, s)"

definition then_do :: "'a action \<Rightarrow> ('a \<Rightarrow> 'b action) \<Rightarrow> 'b action" where
  "then_do m k s = (case m s of (Inl e, s') \<Rightarrow> (Inl e, s') | (Inr x, s') \<Rightarrow> k x s')"

text \<open>
  The primitives, with Python's meaning.  Reading an attribute, \<^verbatim>\<open>d.get(k)\<close>,
  \<^verbatim>\<open>d.get(k, dflt)\<close> and \<^verbatim>\<open>d[k]\<close> read the store; \<^verbatim>\<open>{}\<close> creates a dict object at the
  next address; \<^verbatim>\<open>d[k] = x\<close> changes the dict object \<open>d\<close> in place, for every holder of
  a reference to it.  \<open>method_get\<close> is the lookup of the method \<^verbatim>\<open>get\<close> on a value,
  which precedes the evaluation of the arguments of the call.
\<close>

definition self_index_lut :: "val action" where
  "self_index_lut s = (Inr (obj_index_lut s), s)"

definition self_id_counter :: "nat action" where
  "self_id_counter s = (Inr (obj_id_counter s), s)"

definition dict_get :: "val \<Rightarrow> int \<Rightarrow> val option action" where
  "dict_get d k s =
     (case d of
        Num n \<Rightarrow> (Inl AttributeError, s)
      | Ref a \<Rightarrow> if a < length (dicts s) then (Inr ((dicts s ! a) k), s)
                 else (Inl NoSuchObject, s))"

definition method_get :: "val \<Rightarrow> unit action" where
  "method_get d s =
     (case d of
        Num n \<Rightarrow> (Inl AttributeError, s)
      | Ref a \<Rightarrow> if a < length (dicts s) then (Inr (), s) else (Inl NoSuchObject, s))"

definition dict_get_default :: "val \<Rightarrow> int \<Rightarrow> val \<Rightarrow> val action" where
  "dict_get_default d k dflt =
     then_do (dict_get d k) (\<lambda>v. return_val (case v of None \<Rightarrow> dflt | Some x \<Rightarrow> x))"

definition dict_item :: "val \<Rightarrow> int \<Rightarrow> val action" where
  "dict_item d k s =
     (case d of
        Num n \<Rightarrow> (Inl NotSubscriptable, s)
      | Ref a \<Rightarrow> if a < length (dicts s)
                 then (case (dicts s ! a) k of None \<Rightarrow> (Inl KeyError, s) | Some x \<Rightarrow> (Inr x, s))
                 else (Inl NoSuchObject, s))"

definition dict_new :: "val action" where
  "dict_new s = (Inr (Ref (length (dicts s))), s\<lparr> dicts := dicts s @ [Map.empty] \<rparr>)"

definition dict_setitem :: "val \<Rightarrow> int \<Rightarrow> val \<Rightarrow> unit action" where
  "dict_setitem d k x s =
     (case d of
        Num n \<Rightarrow> (Inl NotSubscriptable, s)
      | Ref a \<Rightarrow> if a < length (dicts s)
                 then (Inr (), s\<lparr> dicts := (dicts s)[a := (dicts s ! a)(k \<mapsto> x)] \<rparr>)
                 else (Inl NoSuchObject, s))"

definition set_id_counter :: "nat \<Rightarrow> unit action" where
  "set_id_counter n s = (Inr (), s\<lparr> obj_id_counter := n \<rparr>)"

definition when_do :: "bool \<Rightarrow> unit action \<Rightarrow> unit action" where
  "when_do b m = (if b then m else return_val ())"

definition append_logic_gate :: "LogicGate \<Rightarrow> unit action" where
  "append_logic_gate g s = (Inr (), s\<lparr> obj_logic_gates := obj_logic_gates s @ [g] \<rparr>)"

text \<open>\<^verbatim>\<open>Circuit()\<close>: the dict created by \<^verbatim>\<open>__init__\<close> is the first object of the store.\<close>

definition Circuit_new :: Circuit_obj where
  "Circuit_new =
     \<lparr> obj_logic_gates = [], obj_index_lut = Ref 0, obj_id_counter = 0, dicts = [Map.empty] \<rparr>"

text \<open>
  The methods, statement by statement.  Each \<^verbatim>\<open>self.index_lut[px]\<close> and
  \<^verbatim>\<open>self.index_lut[px][py]\<close> of the source is evaluated anew, as Python does.  In
  \<^verbatim>\<open>d.get(k, {})\<close> the method is looked up on \<open>d\<close> before \<^verbatim>\<open>{}\<close> is evaluated; in an
  assignment the right-hand side is evaluated before the target.
\<close>

fun is_solid_obj :: "pos \<Rightarrow> bool action" where
  "is_solid_obj (px, py, pz) =
     then_do self_index_lut (\<lambda>l.
     then_do (dict_get l px) (\<lambda>v.
     if v = None then return_val False else
     then_do self_index_lut (\<lambda>l.
     then_do (dict_item l px) (\<lambda>lx.
     then_do (dict_get lx py) (\<lambda>v.
     if v = None then return_val False else
     then_do self_index_lut (\<lambda>l.
     then_do (dict_item l px) (\<lambda>lx.
     then_do (dict_item lx py) (\<lambda>lxy.
     then_do (dict_get lxy pz) (\<lambda>v.
     if v = None then return_val False else
     return_val True)))))))))"

fun get_block_obj :: "pos \<Rightarrow> val option action" where
  "get_block_obj (px, py, pz) =
     then_do self_index_lut (\<lambda>l.
     then_do (method_get l) (\<lambda>_.
     then_do dict_new (\<lambda>e.
     then_do (dict_get_default l px e) (\<lambda>lx.
     then_do (method_get lx) (\<lambda>_.
     then_do dict_new (\<lambda>e.
     then_do (dict_get_default lx py e) (\<lambda>lxy.
     dict_get lxy pz)))))))"

fun generate_lut_obj :: "pos \<Rightarrow> unit action" where
  "generate_lut_obj (px, py, pz) =
     then_do self_index_lut (\<lambda>l.
     then_do (dict_get l px) (\<lambda>v.
     then_do (when_do (v = None)
        (then_do dict_new (\<lambda>e.
         then_do self_index_lut (\<lambda>l.
         dict_setitem l px e)))) (\<lambda>_.
     then_do self_index_lut (\<lambda>l.
     then_do (dict_item l px) (\<lambda>lx.
     then_do (dict_get lx py) (\<lambda>v.
     then_do (when_do (v = None)
        (then_do dict_new (\<lambda>e.
         then_do self_index_lut (\<lambda>l.
         then_do (dict_item l px) (\<lambda>lx.
         dict_setitem lx py e))))) (\<lambda>_.
     then_do self_index_lut (\<lambda>l.
     then_do (dict_item l px) (\<lambda>lx.
     then_do (dict_item lx py) (\<lambda>lxy.
     then_do (dict_get lxy pz) (\<lambda>v.
     then_do (when_do (v = None)
        (then_do self_id_counter (\<lambda>n.
         then_do self_index_lut (\<lambda>l.
         then_do (dict_item l px) (\<lambda>lx.
         then_do (dict_item lx py) (\<lambda>lxy.
         dict_setitem lxy pz (Num n))))))) (\<lambda>_.
     then_do self_id_counter (\<lambda>n.
     set_id_counter (n + 1))))))))))))))"

definition add_logic_obj :: "LogicGate \<Rightarrow> unit action" where
  "add_logic_obj logic_gate =
     then_do (append_logic_gate logic_gate) (\<lambda>_. generate_lut_obj (position logic_gate))"

text \<open>
  A sequence of calls of the two read-only methods on one object, in any order and with
  any arguments; each call starts in the state the previous one left, whether it returned
  or raised.
\<close>

datatype query = IsSolid pos | GetBlock pos

datatype answer = Bool bool | Slot "val option"

fun call :: "query \<Rightarrow> answer action" where
  "call (IsSolid p) = then_do (is_solid_obj p) (\<lambda>b. return_val (Bool b))"
| "call (GetBlock p) = then_do (get_block_obj p) (\<lambda>v. return_val (Slot v))"

fun calls :: "query list \<Rightarrow> Circuit_obj \<Rightarrow> (fault + answer) list \<times> Circuit_obj" where
  "calls [] s = ([], s)"
| "calls (q # qs) s =
     (case call q s of (r, s') \<Rightarrow> (case calls qs s' of (rs, s'') \<Rightarrow> (r # rs, s'')))"

section \<open>Builders\<close>

text \<open>
  \<^verbatim>\<open>bin(n)[2:]\<close> for \<open>n \<ge> 0\<close>: the binary digits, most significant first, \<^verbatim>\<open>"0"\<close> for 0.
\<close>

fun bin :: "nat \<Rightarrow> string" where
  "bin n =
     (if n < 2 then [if n = 0 then CHR ''0'' else CHR ''1'']
      else bin (n div 2) @ [if n mod 2 = 0 then CHR ''0'' else CHR ''1''])"

declare bin.simps [simp del]

text \<open>
  \<^verbatim>\<open>(width - len(s)) * "0" + s\<close>; a negative repetition count gives the empty string.
\<close>

definition zero_pad :: "nat \<Rightarrow> string \<Rightarrow> string" where
  "zero_pad width s = replicate (nat (int width - int (length s))) CHR ''0'' @ s"

text \<open>\<^verbatim>\<open>int(char)\<close> on a decimal digit.\<close>

definition int_of_digit :: "char \<Rightarrow> int" where
  "int_of_digit ch = int (of_char ch) - 48"

text \<open>
  Python's \<^verbatim>\<open>round\<close> on a number: to the nearest integer, a tie to the even one.  The
  argument \<^verbatim>\<open>w - 0.5\<close> is a float that represents the half-integer exactly for every width
  whose \<open>2 ^ w\<close> gates fit in memory, so it is taken as a rational.
\<close>

definition py_round :: "rat \<Rightarrow> int" where
  "py_round x =
     (let f = \<lfloor>x\<rfloor>; d = x - of_int f
      in if d < 1 / 2 then f else if 1 / 2 < d then f + 1 else if even f then f else f + 1)"

text \<open>\<^verbatim>\<open>range(n)\<close>, \<^verbatim>\<open>range(a, b)\<close> and \<^verbatim>\<open>range(a, b, -1)\<close> on integers.\<close>

definition range1 :: "int \<Rightarrow> int list" where
  "range1 n = [0 .. n - 1]"

definition range_up :: "int \<Rightarrow> int \<Rightarrow> int list" where
  "range_up a b = [a .. b - 1]"

definition range_down :: "int \<Rightarrow> int \<Rightarrow> int list" where
  "range_down a b = rev [b + 1 .. a]"

text \<open>The body of the first loop of \<^verbatim>\<open>create_decoder\<close>: the three gates of bit \<open>oy\<close>.\<close>

definition decoder_line :: "int \<Rightarrow> Circuit \<Rightarrow> error + Circuit" where
  "decoder_line oy decoder =
     (let decoder = add_logic decoder (LogicGate_init (0, oy, 0) ''and'' ''eeee22'');
          decoder = add_logic decoder (LogicGate_init (1, oy, 0) ''and'' ''222222'');
          decoder = add_logic decoder (LogicGate_init (2, oy, 0) ''nor'' ''222222'')
      in wire_gates decoder [(0, oy, 0)] [(1, oy, 0), (2, oy, 0)])"

text \<open>
  The body of the inner loop of \<^verbatim>\<open>create_decoder\<close>; the loop state is the circuit and
  the counter \<^verbatim>\<open>index\<close>.
\<close>

definition decoder_cell :: "nat \<Rightarrow> int \<Rightarrow> int \<Rightarrow> Circuit \<times> nat \<Rightarrow> error + Circuit \<times> nat" where
  "decoder_cell w ox oy = (\<lambda>(decoder, index).
     (let decoder = add_logic decoder (LogicGate_init (ox, oy, 0) ''and'' ''222222'');
          number = zero_pad w (bin index)
      in case wire_gates decoder
                (map (\<lambda>(off, ch). (1 + int_of_digit ch, int w - int off - 1, 0))
                     (enumerate 0 number))
                [(ox, oy, 0)] of
           Inl e \<Rightarrow> Inl e
         | Inr decoder \<Rightarrow> Inr (decoder, index + 1)))"

text \<open>
  \<^verbatim>\<open>n // split\<close> is evaluated at the head of the inner loop, once per column; it raises
  when \<open>split = 0\<close>.
\<close>

definition decoder_column ::
  "nat \<Rightarrow> int \<Rightarrow> int \<Rightarrow> int \<Rightarrow> Circuit \<times> nat \<Rightarrow> error + Circuit \<times> nat" where
  "decoder_column w n split ox s =
     (if split = 0 then Inl ZeroDivisionError
      else for_each (decoder_cell w ox) (range1 (n div split)) s)"

definition create_decoder :: "nat \<Rightarrow> error + Circuit" where
  "create_decoder address_bit_width =
     (let n = (2::int) ^ address_bit_width in
      case for_each decoder_line (range1 (int address_bit_width)) Circuit_init of
        Inl e \<Rightarrow> Inl e
      | Inr decoder \<Rightarrow>
          (let r = py_round (of_nat address_bit_width - 1 / 2) in
           if r = 0 then Inl ZeroDivisionError
           else
             (let split = n div r in
              case for_each (decoder_column address_bit_width n split)
                     (range_down (split + 2) 2) (decoder, 0) of
                Inl e \<Rightarrow> Inl e
              | Inr (decoder, index) \<Rightarrow> Inr decoder)))"

definition square_func :: "nat \<Rightarrow> nat \<Rightarrow> string" where
  "square_func index bit_width = (let n = index ^ 2 in zero_pad bit_width (bin n))"

text \<open>The body of the inner loop of \<^verbatim>\<open>create_lut\<close>.\<close>

definition lut_cell ::
  "nat \<Rightarrow> nat \<Rightarrow> (nat \<Rightarrow> nat \<Rightarrow> string) \<Rightarrow> int \<Rightarrow> int \<Rightarrow> Circuit \<times> nat \<Rightarrow> error + Circuit \<times> nat"
  where
  "lut_cell w m str_function ox oy = (\<lambda>(lut, index).
     (let func = rev (str_function index m);
          outputs = map (\<lambda>(off, ch). (0, int off - int w, 0))
                        (filter (\<lambda>(off, ch). ch = CHR ''1'') (enumerate m func))
      in case wire_gates lut [(ox, oy, 0)] outputs of
           Inl e \<Rightarrow> Inl e
         | Inr lut \<Rightarrow> Inr (lut, index + 1)))"

definition lut_column ::
  "nat \<Rightarrow> nat \<Rightarrow> (nat \<Rightarrow> nat \<Rightarrow> string) \<Rightarrow> int \<Rightarrow> int \<Rightarrow> int \<Rightarrow> Circuit \<times> nat
     \<Rightarrow> error + Circuit \<times> nat" where
  "lut_column w m str_function n split ox s =
     (if split = 0 then Inl ZeroDivisionError
      else for_each (lut_cell w m str_function ox) (range_down (n div split - 1) (- 1)) s)"

definition create_lut :: "nat \<Rightarrow> nat \<Rightarrow> (nat \<Rightarrow> nat \<Rightarrow> string) \<Rightarrow> error + Circuit" where
  "create_lut address_bit_width output_bit_width str_function =
     (case create_decoder address_bit_width of
        Inl e \<Rightarrow> Inl e
      | Inr lut \<Rightarrow>
          (let n = (2::int) ^ address_bit_width;
               lut = fold (\<lambda>oy lut. add_logic lut (LogicGate_init (0, oy, 0) ''or'' ''22ee22''))
                       (range_up (int address_bit_width)
                          (int address_bit_width + int output_bit_width)) lut;
               r = py_round (of_nat address_bit_width - 1 / 2)
           in if r = 0 then Inl ZeroDivisionError
              else
                (let split = n div r in
                 case for_each (lut_column address_bit_width output_bit_width str_function n split)
                        (range_up 3 (split + 3)) (lut, 0) of
                   Inl e \<Rightarrow> Inl e
                 | Inr (lut, index) \<Rightarrow> Inr lut)))"

section \<open>Vocabulary of the properties\<close>

text \<open>
  The circuits the class can produce: the empty one, and whatever \<^verbatim>\<open>add_logic\<close> and a
  \<^verbatim>\<open>wire_gates\<close> call that returns make of one.  Each \<^verbatim>\<open>add_logic\<close> call is given a
  \<^verbatim>\<open>LogicGate\<close> object of its own, as in the builders.
\<close>

inductive reachable :: "Circuit \<Rightarrow> bool" where
  reachable_init: "reachable Circuit_init"
| reachable_add: "reachable c \<Longrightarrow> reachable (add_logic c g)"
| reachable_wire: "reachable c \<Longrightarrow> wire_gates c ins outs = Inr c' \<Longrightarrow> reachable c'"

text \<open>Every registered slot is an index into the gate list.\<close>

definition slots_ok :: "Circuit \<Rightarrow> bool" where
  "slots_ok c = (\<forall>p i. get_block c p = Some i \<longrightarrow> i < length (logic_gates c))"

text \<open>
  The spatial index of a circuit built through the class: the counter is the number of
  gates, a coordinate is registered exactly when some gate lies there, and its slot is the
  first gate of the list at that coordinate.
\<close>

definition index_ok :: "Circuit \<Rightarrow> bool" where
  "index_ok c =
     (id_counter c = length (logic_gates c) \<and>
      (\<forall>p i. get_block c p = Some i \<longrightarrow>
         i < length (logic_gates c) \<and> position (logic_gates c ! i) = p \<and>
         (\<forall>j<i. position (logic_gates c ! j) \<noteq> p)) \<and>
      (\<forall>i<length (logic_gates c). get_block c (position (logic_gates c ! i)) \<noteq> None))"

text \<open>One connection: gate \<open>i\<close> gets the target \<open>j\<close> appended.\<close>

definition add_conn :: "nat \<times> nat \<Rightarrow> Circuit \<Rightarrow> Circuit" where
  "add_conn = (\<lambda>(i, j) c.
     c\<lparr> logic_gates := (logic_gates c)[i := connect_to (logic_gates c ! i) j] \<rparr>)"

text \<open>
  The connections a list of coordinate pairs stands for under a lookup \<open>G\<close>: a pair with
  an unoccupied end is skipped, any other pair is the connection from the slot of its
  first end to the slot of its second.
\<close>

definition slot_pairs :: "(pos \<Rightarrow> nat option) \<Rightarrow> (pos \<times> pos) list \<Rightarrow> (nat \<times> nat) list" where
  "slot_pairs G ps =
     concat (map (\<lambda>(a, b). case G a of
                               None \<Rightarrow> []
                             | Some i \<Rightarrow> (case G b of None \<Rightarrow> [] | Some j \<Rightarrow> [(i, j)])) ps)"

text \<open>The arity rule of \<^verbatim>\<open>wire_gates\<close>: which coordinate pairs a call stands for.\<close>

definition arity_mismatch :: "pos list \<Rightarrow> pos list \<Rightarrow> bool" where
  "arity_mismatch ins outs =
     (length ins \<noteq> length outs \<and> length ins \<noteq> 1 \<and> length outs \<noteq> 1)"

definition arity_pairs :: "pos list \<Rightarrow> pos list \<Rightarrow> (pos \<times> pos) list" where
  "arity_pairs ins outs =
     (if length ins = length outs then zip ins outs
      else if length ins = 1 then map (\<lambda>b. (hd ins, b)) outs
      else map (\<lambda>a. (a, hd outs)) ins)"

text \<open>The targets that the pairs \<open>ps\<close> add to the gate in slot \<open>s\<close>, in order.\<close>

definition pair_targets :: "Circuit \<Rightarrow> nat \<Rightarrow> (pos \<times> pos) list \<Rightarrow> nat list" where
  "pair_targets c s ps = map snd (filter (\<lambda>ij. fst ij = s) (slot_pairs (get_block c) ps))"

text \<open>The number a string of binary digits denotes, most significant digit first.\<close>

definition bin_value :: "string \<Rightarrow> nat" where
  "bin_value s = foldl (\<lambda>a ch. 2 * a + (if ch = CHR ''1'' then 1 else 0)) 0 s"

definition targets_ok :: "Circuit \<Rightarrow> bool" where
  "targets_ok c =
     (\<forall>g \<in> set (logic_gates c). \<forall>t \<in> set (connections g). t < length (logic_gates c))"

definition grid_split :: "nat \<Rightarrow> int" where
  "grid_split w = 2 ^ w div py_round (of_nat w - 1 / 2)"

definition grid_rows :: "nat \<Rightarrow> int" where
  "grid_rows w = 2 ^ w div grid_split w"

definition grid_cells :: "nat \<Rightarrow> nat" where
  "grid_cells w = nat (grid_split w * grid_rows w)"

definition decoder_cell_pos :: "nat \<Rightarrow> nat \<Rightarrow> pos" where
  "decoder_cell_pos w k =
     (grid_split w + 2 - int k div grid_rows w, int k mod grid_rows w, 0)"

definition decoder_gate :: "nat \<Rightarrow> nat \<Rightarrow> nat \<Rightarrow> LogicGate" where
  "decoder_gate w k s =
     (if s < 3 * w then
        \<lparr> position = (int (s mod 3), int (s div 3), 0),
          mode = (if s mod 3 = 2 then 4 else 0),
          color = (if s mod 3 = 0 then ''eeee22'' else ''222222''),
          connections =
            (if s mod 3 = 0 then [s + 1, s + 2]
             else map (\<lambda>j. 3 * w + j)
                    (filter (\<lambda>j. bit j (s div 3) = (s mod 3 = 2)) [0..<k])) \<rparr>
      else
        \<lparr> position = decoder_cell_pos w (s - 3 * w), mode = 0, color = ''222222'',
          connections = [] \<rparr>)"

definition slot_of :: "error + Circuit \<Rightarrow> pos \<Rightarrow> nat option" where
  "slot_of r p = (case r of Inl _ \<Rightarrow> None | Inr c \<Rightarrow> get_block c p)"

definition outputs_at :: "error + Circuit \<Rightarrow> pos \<Rightarrow> nat list option" where
  "outputs_at r p =
     (case r of
        Inl _ \<Rightarrow> None
      | Inr c \<Rightarrow>
          (case get_block c p of
             None \<Rightarrow> None
           | Some s \<Rightarrow>
               if s < length (logic_gates c) then Some (connections (logic_gates c ! s))
               else None))"

definition wired :: "error + Circuit \<Rightarrow> pos \<Rightarrow> pos \<Rightarrow> bool" where
  "wired r a b =
     (case outputs_at r a of
        None \<Rightarrow> False
      | Some ts \<Rightarrow> (case slot_of r b of None \<Rightarrow> False | Some j \<Rightarrow> j \<in> set ts))"

definition gate_count :: "error + Circuit \<Rightarrow> nat option" where
  "gate_count r = (case r of Inl _ \<Rightarrow> None | Inr c \<Rightarrow> Some (length (logic_gates c)))"

definition lut_cell_pos :: "nat \<Rightarrow> nat \<Rightarrow> pos" where
  "lut_cell_pos w k =
     (3 + int k div grid_rows w, grid_rows w - 1 - int k mod grid_rows w, 0)"

definition lut_slot :: "nat \<Rightarrow> nat \<Rightarrow> int \<Rightarrow> nat option" where
  "lut_slot w m y =
     (if 0 \<le> y \<and> y < int w then Some (3 * nat y)
      else if int w \<le> y \<and> y < int w + int m
        then Some (3 * w + grid_cells w + nat (y - int w))
      else None)"

definition lut_targets :: "nat \<Rightarrow> nat \<Rightarrow> string \<Rightarrow> nat list" where
  "lut_targets w m s =
     concat (map (\<lambda>(off, ch). case lut_slot w m (int off - int w) of
                                 None \<Rightarrow> [] | Some t \<Rightarrow> [t])
               (filter (\<lambda>(off, ch). ch = CHR ''1'') (enumerate m (rev s))))"

definition lut_gate :: "nat \<Rightarrow> nat \<Rightarrow> (nat \<Rightarrow> nat \<Rightarrow> string) \<Rightarrow> nat \<Rightarrow> nat \<Rightarrow> LogicGate" where
  "lut_gate w m f k s =
     (if s < 3 * w then decoder_gate w (grid_cells w) s
      else if s < 3 * w + grid_cells w then
        \<lparr> position = decoder_cell_pos w (s - 3 * w), mode = 0, color = ''222222'',
          connections =
            (if grid_cells w - 1 - (s - 3 * w) < k
             then lut_targets w m (f (grid_cells w - 1 - (s - 3 * w)) m) else []) \<rparr>
      else
        \<lparr> position = (0, int w + int (s - 3 * w - grid_cells w), 0), mode = 1,
          color = ''22ee22'', connections = [] \<rparr>)"

text \<open>
  An action that leaves every state as it found it, and an action that at most creates
  empty dict objects.
\<close>

definition unchanged :: "'a action \<Rightarrow> bool" where
  "unchanged m = (\<forall>s. snd (m s) = s)"

definition allocates :: "'a action \<Rightarrow> bool" where
  "allocates m = (\<forall>s. \<exists>n. snd (m s) = s\<lparr> dicts := dicts s @ replicate n Map.empty \<rparr>)"

text \<open>
  The circuit that a state of the object stands for: the dicts read by value, from the
  dict \<^verbatim>\<open>index_lut\<close> refers to.
\<close>

definition dict_at :: "dict list \<Rightarrow> nat \<Rightarrow> dict" where
  "dict_at h a = (if a < length h then h ! a else Map.empty)"

definition lut3_of :: "dict list \<Rightarrow> nat \<Rightarrow> lut3" where
  "lut3_of h b pz = (case dict_at h b pz of Some (Num n) \<Rightarrow> Some n | _ \<Rightarrow> None)"

definition lut2_of :: "dict list \<Rightarrow> nat \<Rightarrow> lut2" where
  "lut2_of h a py = (case dict_at h a py of Some (Ref b) \<Rightarrow> Some (lut3_of h b) | _ \<Rightarrow> None)"

definition lut1_of :: "dict list \<Rightarrow> nat \<Rightarrow> lut1" where
  "lut1_of h r px = (case dict_at h r px of Some (Ref a) \<Rightarrow> Some (lut2_of h a) | _ \<Rightarrow> None)"

definition circuit_of :: "Circuit_obj \<Rightarrow> Circuit" where
  "circuit_of s =
     \<lparr> logic_gates = obj_logic_gates s,
       index_lut = (case obj_index_lut s of Ref r \<Rightarrow> lut1_of (dicts s) r | Num n \<Rightarrow> Map.empty),
       id_counter = obj_id_counter s \<rparr>"

text \<open>
  The stores that the class builds: below the root dict \<open>r\<close> there are three levels; the
  first two hold references to dict objects inside the store, the third holds ints; and
  every dict object is referenced from one place only.  Nothing is asked of the gate list,
  the only part of the object that \<^verbatim>\<open>wire_gates\<close> changes.
\<close>

definition tree_heap :: "dict list \<Rightarrow> nat \<Rightarrow> bool" where
  "tree_heap h r =
     (r < length h \<and>
      (\<forall>px v. (h ! r) px = Some v \<longrightarrow> (\<exists>a. v = Ref a \<and> a < length h \<and> a \<noteq> r)) \<and>
      (\<forall>px px' a. (h ! r) px = Some (Ref a) \<and> (h ! r) px' = Some (Ref a) \<longrightarrow> px = px') \<and>
      (\<forall>px a py v. (h ! r) px = Some (Ref a) \<and> (h ! a) py = Some v \<longrightarrow>
         (\<exists>b. v = Ref b \<and> b < length h \<and> b \<noteq> r \<and> (\<forall>px'. (h ! r) px' \<noteq> Some (Ref b)))) \<and>
      (\<forall>px a py px' a' py' b.
         (h ! r) px = Some (Ref a) \<and> (h ! a) py = Some (Ref b) \<and>
         (h ! r) px' = Some (Ref a') \<and> (h ! a') py' = Some (Ref b) \<longrightarrow>
         px = px' \<and> py = py') \<and>
      (\<forall>px a py b pz v.
         (h ! r) px = Some (Ref a) \<and> (h ! a) py = Some (Ref b) \<and> (h ! b) pz = Some v \<longrightarrow>
         (\<exists>n. v = Num n)))"

definition well_formed :: "Circuit_obj \<Rightarrow> bool" where
  "well_formed s = (case obj_index_lut s of Ref r \<Rightarrow> tree_heap (dicts s) r | Num n \<Rightarrow> False)"

text \<open>What the by-value methods answer to a call.\<close>

definition answer_of :: "Circuit \<Rightarrow> query \<Rightarrow> answer" where
  "answer_of c q =
     (case q of IsSolid p \<Rightarrow> Bool (is_solid c p)
      | GetBlock p \<Rightarrow> Slot (map_option Num (get_block c p)))"

section \<open>Lookup\<close>

lemma is_solid_get_block: "is_solid c p = (get_block c p \<noteq> None)"
  by (cases p) (auto simp: get_or_empty_def split: option.splits)

lemma get_block_generate_lut:
  "get_block (generate_lut c p) q =
     (if q = p \<and> get_block c p = None then Some (id_counter c) else get_block c q)"
  by (cases p; cases q) (auto simp: get_or_empty_def Let_def split: option.splits)

lemma logic_gates_generate_lut: "logic_gates (generate_lut c p) = logic_gates c"
  by (cases p) (simp add: Let_def)

lemma id_counter_generate_lut: "id_counter (generate_lut c p) = Suc (id_counter c)"
  by (cases p) (simp add: Let_def)

lemma index_lut_generate_lut_solid:
  "is_solid c p \<Longrightarrow> index_lut (generate_lut c p) = index_lut c"
  by (cases p) (auto simp: get_or_empty_def Let_def fun_upd_idem split: option.splits)

declare is_solid.simps [simp del] get_block.simps [simp del] generate_lut.simps [simp del]

lemma get_block_cong: "index_lut c' = index_lut c \<Longrightarrow> get_block c' = get_block c"
proof
  fix p
  show "index_lut c' = index_lut c \<Longrightarrow> get_block c' p = get_block c p"
    by (cases p) (simp add: get_block.simps)
qed

lemma is_solid_cong: "index_lut c' = index_lut c \<Longrightarrow> is_solid c' = is_solid c"
proof
  fix p
  show "index_lut c' = index_lut c \<Longrightarrow> is_solid c' p = is_solid c p"
    by (cases p) (simp add: is_solid.simps)
qed

lemma get_block_add_logic:
  "get_block (add_logic c g) q =
     (if q = position g \<and> get_block c q = None then Some (id_counter c) else get_block c q)"
proof -
  have "get_block (c\<lparr>logic_gates := logic_gates c @ [g]\<rparr>) = get_block c"
    by (rule get_block_cong) simp
  then show ?thesis
    by (auto simp: add_logic_def get_block_generate_lut)
qed

lemma logic_gates_add_logic [simp]: "logic_gates (add_logic c g) = logic_gates c @ [g]"
  by (simp add: add_logic_def logic_gates_generate_lut)

lemma id_counter_add_logic [simp]: "id_counter (add_logic c g) = Suc (id_counter c)"
  by (simp add: add_logic_def id_counter_generate_lut)

lemma index_lut_add_logic_solid:
  assumes "is_solid c (position g)"
  shows "index_lut (add_logic c g) = index_lut c"
proof -
  have "is_solid (c\<lparr>logic_gates := logic_gates c @ [g]\<rparr>) = is_solid c"
    by (rule is_solid_cong) simp
  then show ?thesis
    using assms by (simp add: add_logic_def index_lut_generate_lut_solid)
qed

lemma get_block_Circuit_init [simp]: "get_block Circuit_init p = None"
  by (cases p) (simp add: get_block.simps Circuit_init_def get_or_empty_def)

lemma Circuit_init_fields [simp]:
  "logic_gates Circuit_init = []" "id_counter Circuit_init = 0"
  by (simp_all add: Circuit_init_def)

lemma LogicGate_init_fields [simp]:
  "position (LogicGate_init p m col) = p"
  "color (LogicGate_init p m col) = col"
  "connections (LogicGate_init p m col) = []"
  by (simp_all add: LogicGate_init_def)

section \<open>Wiring\<close>

lemma add_conn_fields [simp]:
  "index_lut (add_conn ij c) = index_lut c"
  "id_counter (add_conn ij c) = id_counter c"
  "length (logic_gates (add_conn ij c)) = length (logic_gates c)"
  by (simp_all add: add_conn_def split_beta)

lemma get_block_add_conn [simp]: "get_block (add_conn ij c) = get_block c"
  by (rule get_block_cong) simp

lemma fold_add_conn_fields [simp]:
  "index_lut (fold add_conn ps c) = index_lut c"
  "id_counter (fold add_conn ps c) = id_counter c"
  "length (logic_gates (fold add_conn ps c)) = length (logic_gates c)"
  by (induction ps arbitrary: c; simp)+

lemma get_block_fold_add_conn [simp]: "get_block (fold add_conn ps c) = get_block c"
  by (rule get_block_cong) simp

lemma slots_okD: "slots_ok c \<Longrightarrow> get_block c p = Some i \<Longrightarrow> i < length (logic_gates c)"
  unfolding slots_ok_def by blast

lemma slots_ok_add_conn [simp]: "slots_ok (add_conn ij c) = slots_ok c"
  by (simp add: slots_ok_def)

lemma slots_ok_fold_add_conn [simp]: "slots_ok (fold add_conn ps c) = slots_ok c"
  by (simp add: slots_ok_def)

lemma nth_add_conn:
  "s < length (logic_gates c) \<Longrightarrow>
   logic_gates (add_conn (i, j) c) ! s =
     (if i = s then (logic_gates c ! s)\<lparr>connections := connections (logic_gates c ! s) @ [j]\<rparr>
      else logic_gates c ! s)"
  by (simp add: add_conn_def connect_to_def nth_list_update)

lemma nth_fold_add_conn:
  "s < length (logic_gates c) \<Longrightarrow>
   logic_gates (fold add_conn ps c) ! s =
     (logic_gates c ! s)\<lparr>connections :=
        connections (logic_gates c ! s) @ map snd (filter (\<lambda>ij. fst ij = s) ps)\<rparr>"
proof (induction ps arbitrary: c)
  case Nil
  show ?case by simp
next
  case (Cons ij ps)
  obtain i j where ij: "ij = (i, j)" by (cases ij)
  have len: "s < length (logic_gates (add_conn ij c))" using Cons.prems by simp
  show ?case
    using Cons.IH [OF len] Cons.prems by (simp add: ij nth_add_conn)
qed

lemma connect_Some:
  "get_block c a = Some i \<Longrightarrow> get_block c b = Some j \<Longrightarrow> i < length (logic_gates c) \<Longrightarrow>
   connect c a b = Inr (add_conn (i, j) c)"
  by (simp add: connect_def add_conn_def)

text \<open>
  A loop of guarded \<^verbatim>\<open>connect_to\<close> statements adds the connections of its coordinate
  pairs, one after the other; the lookups do not change on the way.
\<close>

lemma for_each_connect:
  assumes ok: "slots_ok c" and G: "get_block c = G"
    and body: "\<And>x c'. get_block c' = G \<Longrightarrow>
       body x c' =
         (if G (fa x) \<noteq> None \<and> G (fb x) \<noteq> None then connect c' (fa x) (fb x) else Inr c')"
  shows "for_each body xs c = Inr (fold add_conn (slot_pairs G (map (\<lambda>x. (fa x, fb x)) xs)) c)"
  using ok G
proof (induction xs arbitrary: c)
  case Nil
  show ?case by (simp add: slot_pairs_def)
next
  case (Cons x xs)
  show ?case
  proof (cases "G (fa x) \<noteq> None \<and> G (fb x) \<noteq> None")
    case False
    then have "body x c = Inr c"
      using body [OF Cons.prems(2), of x] by auto
    moreover have "slot_pairs G (map (\<lambda>x. (fa x, fb x)) (x # xs)) =
        slot_pairs G (map (\<lambda>x. (fa x, fb x)) xs)"
      using False by (auto simp: slot_pairs_def split: option.splits)
    ultimately show ?thesis using Cons.IH [OF Cons.prems] by simp
  next
    case True
    then obtain i j where ij: "G (fa x) = Some i" "G (fb x) = Some j" by auto
    have "i < length (logic_gates c)"
      using Cons.prems ij by (auto dest: slots_okD)
    then have step: "body x c = Inr (add_conn (i, j) c)"
      using body [OF Cons.prems(2)] ij Cons.prems(2) by (simp add: connect_Some)
    have sp: "slot_pairs G ((fa x, fb x) # map (\<lambda>x. (fa x, fb x)) xs) =
        (i, j) # slot_pairs G (map (\<lambda>x. (fa x, fb x)) xs)"
      using ij by (simp add: slot_pairs_def)
    have "for_each body xs (add_conn (i, j) c) =
          Inr (fold add_conn (slot_pairs G (map (\<lambda>x. (fa x, fb x)) xs)) (add_conn (i, j) c))"
      using Cons.prems by (intro Cons.IH) simp_all
    then show ?thesis by (simp add: step sp)
  qed
qed

lemma slot_pairs_Nil_left:
  "G a = None \<Longrightarrow> slot_pairs G (map (\<lambda>b. (a, b)) bs) = []"
  by (induction bs) (auto simp: slot_pairs_def)

lemma slot_pairs_Nil_right:
  "G b = None \<Longrightarrow> slot_pairs G (map (\<lambda>a. (a, b)) as) = []"
  by (induction as) (auto simp: slot_pairs_def split: option.splits)

text \<open>What a call of \<^verbatim>\<open>wire_gates\<close> that does not raise makes of the circuit.\<close>

lemma wire_gates_closed_form:
  assumes ok: "slots_ok c" and ar: "\<not> arity_mismatch ins outs"
  shows "wire_gates c ins outs =
     Inr (fold add_conn (slot_pairs (get_block c) (arity_pairs ins outs)) c)"
proof -
  consider (eq) "length ins = length outs"
    | (fan_out) "length ins \<noteq> length outs" "length ins = 1"
    | (fan_in) "length ins \<noteq> length outs" "length ins \<noteq> 1" "length outs = 1"
    using ar unfolding arity_mismatch_def by blast
  then show ?thesis
  proof cases
    case eq
    have "for_each (\<lambda>(a, b) c. if \<not> (is_solid c a \<and> is_solid c b) then Inr c else connect c a b)
            (zip ins outs) c
          = Inr (fold add_conn
                  (slot_pairs (get_block c) (map (\<lambda>x. (fst x, snd x)) (zip ins outs))) c)"
      by (rule for_each_connect [OF ok refl]) (auto simp: is_solid_get_block split_beta)
    then show ?thesis using eq by (simp add: wire_gates_def arity_pairs_def)
  next
    case fan_out
    show ?thesis
    proof (cases "is_solid c (hd ins)")
      case False
      then have "slot_pairs (get_block c) (map (\<lambda>b. (hd ins, b)) outs) = []"
        by (simp add: slot_pairs_Nil_left is_solid_get_block)
      then show ?thesis using fan_out False by (simp add: wire_gates_def arity_pairs_def)
    next
      case True
      have "for_each (\<lambda>b c. if \<not> is_solid c b then Inr c else connect c (hd ins) b) outs c
          = Inr (fold add_conn (slot_pairs (get_block c) (map (\<lambda>x. (hd ins, x)) outs)) c)"
        using True
        by (intro for_each_connect [OF ok refl]) (auto simp: is_solid_get_block)
      then show ?thesis using fan_out True by (simp add: wire_gates_def arity_pairs_def)
    qed
  next
    case fan_in
    show ?thesis
    proof (cases "is_solid c (hd outs)")
      case False
      then have "slot_pairs (get_block c) (map (\<lambda>a. (a, hd outs)) ins) = []"
        by (simp add: slot_pairs_Nil_right is_solid_get_block)
      then show ?thesis using fan_in False by (simp add: wire_gates_def arity_pairs_def)
    next
      case True
      have "for_each (\<lambda>a c. if \<not> is_solid c a then Inr c else connect c a (hd outs)) ins c
          = Inr (fold add_conn (slot_pairs (get_block c) (map (\<lambda>x. (x, hd outs)) ins)) c)"
        using True
        by (intro for_each_connect [OF ok refl]) (auto simp: is_solid_get_block)
      then show ?thesis using fan_in True by (simp add: wire_gates_def arity_pairs_def)
    qed
  qed
qed

lemma for_each_not_error:
  assumes "\<And>x s. body x s \<noteq> Inl e"
  shows "for_each body xs s \<noteq> Inl e"
  using assms by (induction xs arbitrary: s) (auto split: sum.splits)

lemma connect_not_ArityMismatch: "connect c a b \<noteq> Inl ArityMismatch"
  by (auto simp: connect_def split: option.splits)

lemma wire_gates_ArityMismatch:
  "(wire_gates c ins outs = Inl ArityMismatch) = arity_mismatch ins outs"
proof -
  have 1: "for_each (\<lambda>(a, b) c. if \<not> (is_solid c a \<and> is_solid c b) then Inr c else connect c a b)
             xs c \<noteq> Inl ArityMismatch" for xs
    by (rule for_each_not_error) (auto simp: connect_not_ArityMismatch split: if_splits)
  have 2: "for_each (\<lambda>b c. if \<not> is_solid c b then Inr c else connect c a b) xs c
             \<noteq> Inl ArityMismatch" for a xs
    by (rule for_each_not_error) (auto simp: connect_not_ArityMismatch)
  have 3: "for_each (\<lambda>a c. if \<not> is_solid c a then Inr c else connect c a b) xs c
             \<noteq> Inl ArityMismatch" for b xs
    by (rule for_each_not_error) (auto simp: connect_not_ArityMismatch)
  show ?thesis
    using 1 2 3 by (auto simp: wire_gates_def arity_mismatch_def)
qed

section \<open>Circuits built through the class\<close>

lemma index_okI:
  assumes "id_counter c = length (logic_gates c)"
    and "\<And>p i. get_block c p = Some i \<Longrightarrow>
        i < length (logic_gates c) \<and> position (logic_gates c ! i) = p \<and>
        (\<forall>j<i. position (logic_gates c ! j) \<noteq> p)"
    and "\<And>i. i < length (logic_gates c) \<Longrightarrow> get_block c (position (logic_gates c ! i)) \<noteq> None"
  shows "index_ok c"
  unfolding index_ok_def using assms by blast

lemma index_ok_counter: "index_ok c \<Longrightarrow> id_counter c = length (logic_gates c)"
  unfolding index_ok_def by blast

lemma index_ok_slot:
  "index_ok c \<Longrightarrow> get_block c p = Some i \<Longrightarrow>
     i < length (logic_gates c) \<and> position (logic_gates c ! i) = p \<and>
     (\<forall>j<i. position (logic_gates c ! j) \<noteq> p)"
  unfolding index_ok_def by blast

lemma index_ok_occupied:
  "index_ok c \<Longrightarrow> i < length (logic_gates c) \<Longrightarrow>
     get_block c (position (logic_gates c ! i)) \<noteq> None"
  unfolding index_ok_def by blast

lemma index_ok_slots_ok: "index_ok c \<Longrightarrow> slots_ok c"
  unfolding slots_ok_def using index_ok_slot by blast

lemma index_ok_Circuit_init: "index_ok Circuit_init"
  by (rule index_okI) simp_all

lemma index_ok_add_logic:
  assumes ok: "index_ok c"
  shows "index_ok (add_logic c g)"
proof (rule index_okI)
  let ?gs = "logic_gates c"
  note cnt = index_ok_counter [OF ok]
  show "id_counter (add_logic c g) = length (logic_gates (add_logic c g))"
    using cnt by simp
  show "i < length (logic_gates (add_logic c g)) \<and>
        position (logic_gates (add_logic c g) ! i) = p \<and>
        (\<forall>j<i. position (logic_gates (add_logic c g) ! j) \<noteq> p)"
    if new: "get_block (add_logic c g) p = Some i" for p i
  proof (cases "p = position g \<and> get_block c p = None")
    case True
    then have i: "i = length ?gs" using new cnt by (auto simp: get_block_add_logic)
    have "position (?gs ! j) \<noteq> p" if "j < length ?gs" for j
      using index_ok_occupied [OF ok that] True by auto
    then show ?thesis using i True by (simp add: nth_append)
  next
    case False
    then have "get_block c p = Some i"
      using new by (auto simp: get_block_add_logic split: if_splits)
    from index_ok_slot [OF ok this] show ?thesis by (simp add: nth_append)
  qed
  show "get_block (add_logic c g) (position (logic_gates (add_logic c g) ! i)) \<noteq> None"
    if "i < length (logic_gates (add_logic c g))" for i
  proof (cases "i < length ?gs")
    case True
    then show ?thesis
      using index_ok_occupied [OF ok True] by (simp add: get_block_add_logic nth_append)
  next
    case False
    then have "i = length ?gs" using that by simp
    then show ?thesis by (simp add: get_block_add_logic)
  qed
qed

lemma index_ok_fold_add_conn:
  assumes ok: "index_ok c"
  shows "index_ok (fold add_conn ps c)"
proof (rule index_okI)
  have pos: "position (logic_gates (fold add_conn ps c) ! i) = position (logic_gates c ! i)"
    if "i < length (logic_gates c)" for i
    using that by (simp add: nth_fold_add_conn)
  show "id_counter (fold add_conn ps c) = length (logic_gates (fold add_conn ps c))"
    using index_ok_counter [OF ok] by simp
  show "i < length (logic_gates (fold add_conn ps c)) \<and>
        position (logic_gates (fold add_conn ps c) ! i) = p \<and>
        (\<forall>j<i. position (logic_gates (fold add_conn ps c) ! j) \<noteq> p)"
    if "get_block (fold add_conn ps c) p = Some i" for p i
  proof -
    have g: "get_block c p = Some i" using that by simp
    note s = index_ok_slot [OF ok g]
    have "position (logic_gates (fold add_conn ps c) ! j) \<noteq> p" if "j < i" for j
      using s that pos [of j] by auto
    then show ?thesis using s pos [of i] by simp
  qed
  show "get_block (fold add_conn ps c) (position (logic_gates (fold add_conn ps c) ! i)) \<noteq> None"
    if "i < length (logic_gates (fold add_conn ps c))" for i
    using that index_ok_occupied [OF ok, of i] pos [of i] by simp
qed

lemma wire_gates_Inr_closed_form:
  assumes "slots_ok c" and "wire_gates c ins outs = Inr c'"
  shows "c' = fold add_conn (slot_pairs (get_block c) (arity_pairs ins outs)) c"
proof -
  have "\<not> arity_mismatch ins outs"
    using assms(2) wire_gates_ArityMismatch [of c ins outs] by auto
  from wire_gates_closed_form [OF assms(1) this] assms(2) show ?thesis by simp
qed

lemma reachable_index_ok: "reachable c \<Longrightarrow> index_ok c"
proof (induction rule: reachable.induct)
  case reachable_init
  show ?case by (rule index_ok_Circuit_init)
next
  case (reachable_add c g)
  then show ?case by (simp add: index_ok_add_logic)
next
  case (reachable_wire c ins outs c')
  have "c' = fold add_conn (slot_pairs (get_block c) (arity_pairs ins outs)) c"
    using reachable_wire by (intro wire_gates_Inr_closed_form index_ok_slots_ok)
  then show ?case using reachable_wire.IH by (simp add: index_ok_fold_add_conn)
qed

lemma reachable_slots_ok: "reachable c \<Longrightarrow> slots_ok c"
  by (simp add: reachable_index_ok index_ok_slots_ok)

lemma slot_pairs_Nil: "slot_pairs G [] = []"
  by (simp add: slot_pairs_def)

lemma slot_pairs_Cons:
  "slot_pairs G ((a, b) # ps) =
     (case G a of None \<Rightarrow> [] | Some i \<Rightarrow> (case G b of None \<Rightarrow> [] | Some j \<Rightarrow> [(i, j)]))
     @ slot_pairs G ps"
  by (simp add: slot_pairs_def)

lemma slot_pairs_unoccupied:
  "\<forall>(a, b) \<in> set ps. G a = None \<or> G b = None \<Longrightarrow> slot_pairs G ps = []"
  by (induction ps) (auto simp: slot_pairs_Nil slot_pairs_Cons split: option.splits)

lemma pair_targets_Cons:
  "pair_targets c s ((a, b) # ps) =
     (case get_block c a of
        None \<Rightarrow> []
      | Some i \<Rightarrow> (case get_block c b of None \<Rightarrow> [] | Some j \<Rightarrow> if i = s then [j] else []))
     @ pair_targets c s ps"
  by (simp add: pair_targets_def slot_pairs_Cons split: option.splits)

section \<open>Properties of the lookups\<close>

text \<open>
  Claim C10.  For every circuit and coordinate, \<^verbatim>\<open>is_solid\<close> returns true exactly when
  \<^verbatim>\<open>get_block\<close> returns a slot; on an unoccupied coordinate \<^verbatim>\<open>get_block\<close> returns
  \<^verbatim>\<open>None\<close> and does not raise (it has no raising branch).
\<close>

theorem is_solid_iff_slot: "is_solid c p = (\<exists>i. get_block c p = Some i)"
  by (simp add: is_solid_get_block)

theorem is_solid_iff_slot_witness:
  "is_solid (add_logic Circuit_init (LogicGate_init (0, 0, 0) ''and'' ''eeeeee'')) (0, 0, 0) \<and>
   get_block (add_logic Circuit_init (LogicGate_init (0, 0, 0) ''and'' ''eeeeee'')) (0, 0, 0) = Some 0 \<and>
   \<not> is_solid (add_logic Circuit_init (LogicGate_init (0, 0, 0) ''and'' ''eeeeee'')) (9, 9, 9) \<and>
   get_block (add_logic Circuit_init (LogicGate_init (0, 0, 0) ''and'' ''eeeeee'')) (9, 9, 9) = None"
  using is_solid_iff_slot [of "add_logic Circuit_init (LogicGate_init (0, 0, 0) ''and'' ''eeeeee'')" "(0, 0, 0)"]
    is_solid_iff_slot [of "add_logic Circuit_init (LogicGate_init (0, 0, 0) ''and'' ''eeeeee'')" "(9, 9, 9)"]
  by (simp add: get_block_add_logic)

section \<open>The read-only methods on the circuit object\<close>

subsection \<open>Frame of the actions\<close>

lemma unchanged_return [simp]: "unchanged (return_val x)"
  by (simp add: unchanged_def return_val_def)

lemma unchanged_then_do:
  assumes "unchanged m" and "\<And>x. unchanged (k x)"
  shows "unchanged (then_do m k)"
  unfolding unchanged_def
proof
  fix s
  have "snd (m s) = s" using assms(1) by (simp add: unchanged_def)
  then show "snd (then_do m k s) = s"
    using assms(2) by (cases "m s") (auto simp: then_do_def unchanged_def split: sum.splits)
qed

lemma unchanged_self_index_lut [simp]: "unchanged self_index_lut"
  by (simp add: unchanged_def self_index_lut_def)

lemma unchanged_dict_get [simp]: "unchanged (dict_get d k)"
  by (simp add: unchanged_def dict_get_def split: val.splits)

lemma unchanged_dict_item [simp]: "unchanged (dict_item d k)"
  by (simp add: unchanged_def dict_item_def split: val.splits option.splits)

lemma unchanged_if [simp]: "unchanged a \<Longrightarrow> unchanged b \<Longrightarrow> unchanged (if c then a else b)"
  by simp

lemma is_solid_obj_unchanged: "unchanged (is_solid_obj p)"
  by (cases p) (simp, intro unchanged_then_do unchanged_if unchanged_self_index_lut
      unchanged_dict_get unchanged_dict_item unchanged_return)

lemma allocates_unchanged: "unchanged m \<Longrightarrow> allocates m"
  unfolding unchanged_def allocates_def
proof
  fix s assume "\<forall>s. snd (m s) = s"
  then have "snd (m s) = s\<lparr> dicts := dicts s @ replicate 0 Map.empty \<rparr>" by simp
  then show "\<exists>n. snd (m s) = s\<lparr> dicts := dicts s @ replicate n Map.empty \<rparr>" by blast
qed

lemma allocates_then_do:
  assumes "allocates m" and "\<And>x. allocates (k x)"
  shows "allocates (then_do m k)"
  unfolding allocates_def
proof
  fix s
  obtain r s' where ms: "m s = (r, s')" by (cases "m s")
  obtain n where n: "s' = s\<lparr> dicts := dicts s @ replicate n Map.empty \<rparr>"
    using assms(1) ms unfolding allocates_def by (metis snd_conv)
  show "\<exists>n. snd (then_do m k s) = s\<lparr> dicts := dicts s @ replicate n Map.empty \<rparr>"
  proof (cases r)
    case (Inl e)
    then show ?thesis using ms n by (auto simp: then_do_def)
  next
    case (Inr x)
    obtain n' where "snd (k x s') = s'\<lparr> dicts := dicts s' @ replicate n' Map.empty \<rparr>"
      using assms(2) unfolding allocates_def by blast
    then have "snd (k x s') = s\<lparr> dicts := dicts s @ replicate (n + n') Map.empty \<rparr>"
      by (simp add: n replicate_add)
    then show ?thesis using ms Inr by (auto simp: then_do_def)
  qed
qed

lemma allocates_dict_new: "allocates dict_new"
  unfolding allocates_def
proof
  fix s
  have "snd (dict_new s) = s\<lparr> dicts := dicts s @ replicate 1 Map.empty \<rparr>"
    by (simp add: dict_new_def)
  then show "\<exists>n. snd (dict_new s) = s\<lparr> dicts := dicts s @ replicate n Map.empty \<rparr>" by blast
qed

lemma unchanged_dict_get_default: "unchanged (dict_get_default d k e)"
  unfolding dict_get_default_def by (intro unchanged_then_do) simp_all

lemma unchanged_method_get: "unchanged (method_get d)"
  by (simp add: unchanged_def method_get_def split: val.splits)

lemma get_block_obj_allocates: "allocates (get_block_obj p)"
proof -
  note a = allocates_unchanged [OF unchanged_self_index_lut]
    allocates_unchanged [OF unchanged_dict_get_default]
    allocates_unchanged [OF unchanged_method_get]
    allocates_unchanged [OF unchanged_dict_get] allocates_dict_new
  show ?thesis by (cases p) (simp, intro allocates_then_do a)
qed

lemma call_allocates: "allocates (call q)"
proof (cases q)
  case (IsSolid p)
  have "unchanged (call (IsSolid p))"
    by (simp, intro unchanged_then_do is_solid_obj_unchanged unchanged_return)
  then show ?thesis using IsSolid by (simp only: allocates_unchanged)
next
  case (GetBlock p)
  have "allocates (call (GetBlock p))"
    by (simp, intro allocates_then_do get_block_obj_allocates
        allocates_unchanged [OF unchanged_return])
  then show ?thesis using GetBlock by simp
qed

lemma calls_allocates:
  "\<exists>n. snd (calls qs s) = s\<lparr> dicts := dicts s @ replicate n Map.empty \<rparr>"
proof (induction qs arbitrary: s)
  case Nil
  have "snd (calls [] s) = s\<lparr> dicts := dicts s @ replicate 0 Map.empty \<rparr>" by simp
  then show ?case by blast
next
  case (Cons q qs)
  obtain r s' where c: "call q s = (r, s')" by (cases "call q s")
  obtain n where n: "s' = s\<lparr> dicts := dicts s @ replicate n Map.empty \<rparr>"
    using call_allocates [of q] c unfolding allocates_def by (metis snd_conv)
  obtain n' where "snd (calls qs s') = s'\<lparr> dicts := dicts s' @ replicate n' Map.empty \<rparr>"
    using Cons.IH by blast
  then have "snd (calls (q # qs) s) = s\<lparr> dicts := dicts s @ replicate (n + n') Map.empty \<rparr>"
    using c by (simp add: n replicate_add split_beta)
  then show ?case by blast
qed

subsection \<open>Stores built through the class\<close>

lemma tree_heap_root: "tree_heap h r \<Longrightarrow> r < length h"
  by (simp add: tree_heap_def)

lemma tree_heap_level1:
  "tree_heap h r \<Longrightarrow> (h ! r) px = Some v \<Longrightarrow> \<exists>a. v = Ref a \<and> a < length h \<and> a \<noteq> r"
  unfolding tree_heap_def by (elim conjE) metis

lemma tree_heap_inj1:
  "tree_heap h r \<Longrightarrow> (h ! r) px = Some (Ref a) \<Longrightarrow> (h ! r) px' = Some (Ref a) \<Longrightarrow> px = px'"
  unfolding tree_heap_def by (elim conjE) metis

lemma tree_heap_level2:
  "tree_heap h r \<Longrightarrow> (h ! r) px = Some (Ref a) \<Longrightarrow> (h ! a) py = Some v \<Longrightarrow>
   \<exists>b. v = Ref b \<and> b < length h \<and> b \<noteq> r \<and> (\<forall>px'. (h ! r) px' \<noteq> Some (Ref b))"
  unfolding tree_heap_def by (elim conjE) metis

lemma tree_heap_inj2:
  "tree_heap h r \<Longrightarrow> (h ! r) px = Some (Ref a) \<Longrightarrow> (h ! a) py = Some (Ref b) \<Longrightarrow>
   (h ! r) px' = Some (Ref a') \<Longrightarrow> (h ! a') py' = Some (Ref b) \<Longrightarrow> px = px' \<and> py = py'"
  unfolding tree_heap_def by (elim conjE) metis

lemma tree_heap_level3:
  "tree_heap h r \<Longrightarrow> (h ! r) px = Some (Ref a) \<Longrightarrow> (h ! a) py = Some (Ref b) \<Longrightarrow>
   (h ! b) pz = Some v \<Longrightarrow> \<exists>n. v = Num n"
  unfolding tree_heap_def by (elim conjE) metis

lemma well_formed_Circuit_new: "well_formed Circuit_new"
  by (simp add: well_formed_def tree_heap_def Circuit_new_def)

lemma circuit_of_Circuit_new: "circuit_of Circuit_new = Circuit_init"
  by (simp add: circuit_of_def Circuit_new_def Circuit_init_def lut1_of_def dict_at_def fun_eq_iff)

lemma tree_heap_append:
  assumes "tree_heap h r"
  shows "tree_heap (h @ xs) r"
proof -
  note d = tree_heap_root [OF assms] tree_heap_level1 [OF assms] tree_heap_level2 [OF assms]
  have r: "(h @ xs) ! r = h ! r" using d(1) by (simp add: nth_append)
  have a: "(h @ xs) ! a = h ! a" if "(h ! r) px = Some (Ref a)" for px a
    using d(2) [OF that] by (simp add: nth_append)
  have b: "(h @ xs) ! b = h ! b" if "(h ! r) px = Some (Ref a)" "(h ! a) py = Some (Ref b)" for px a py b
    using d(3) [OF that] by (simp add: nth_append)
  show ?thesis
    unfolding tree_heap_def r
    apply (intro conjI allI impI)
    subgoal using d(1) by simp
    subgoal for px v using d(2) [of px v] by auto
    subgoal for px px' a using tree_heap_inj1 [OF assms, of px a px'] by simp
    subgoal for px a py v using d(3) [of px a py v] a [of px a] by auto
    subgoal for px a py px' a' py' b
      using tree_heap_inj2 [OF assms, of px a py b px' a' py'] a [of px a] a [of px' a'] by simp
    subgoal for px a py px' a' py' b
      using tree_heap_inj2 [OF assms, of px a py b px' a' py'] a [of px a] a [of px' a'] by simp
    subgoal for px a py b pz v
      using tree_heap_level3 [OF assms, of px a py b pz v] a [of px a] b [of px a py b] by simp
    done
qed

lemma lut1_of_append:
  assumes "tree_heap h r"
  shows "lut1_of (h @ xs) r = lut1_of h r"
proof -
  note d = tree_heap_root [OF assms] tree_heap_level1 [OF assms] tree_heap_level2 [OF assms]
  have 3: "lut3_of (h @ xs) b = lut3_of h b" if "b < length h" for b
    using that by (simp add: lut3_of_def dict_at_def nth_append fun_eq_iff)
  have 2: "lut2_of (h @ xs) a = lut2_of h a" if "(h ! r) px = Some (Ref a)" for px a
  proof
    fix py
    show "lut2_of (h @ xs) a py = lut2_of h a py"
      using d(2) [OF that] d(3) [OF that, of py] 3
      by (auto simp: lut2_of_def dict_at_def nth_append split: option.splits val.splits)
  qed
  show ?thesis
  proof
    fix px
    show "lut1_of (h @ xs) r px = lut1_of h r px"
      using d(1) 2 [of px]
      by (auto simp: lut1_of_def dict_at_def nth_append split: option.splits val.splits)
  qed
qed

subsection \<open>The lookups on the object and by value\<close>

lemmas action_defs = then_do_def return_val_def self_index_lut_def self_id_counter_def
  dict_get_def method_get_def dict_get_default_def dict_item_def dict_new_def dict_setitem_def when_do_def
  set_id_counter_def

lemma well_formedE:
  assumes "well_formed s"
  obtains r where "obj_index_lut s = Ref r" and "tree_heap (dicts s) r"
  using assms by (cases "obj_index_lut s") (simp_all add: well_formed_def)

lemma is_solid_obj_refines:
  assumes "well_formed s"
  shows "is_solid_obj p s = (Inr (is_solid (circuit_of s) p), s)"
proof -
  obtain px py pz where p: "p = (px, py, pz)" by (cases p)
  from assms obtain r where r: "obj_index_lut s = Ref r" and t: "tree_heap (dicts s) r"
    by (rule well_formedE)
  note d = tree_heap_root [OF t] tree_heap_level1 [OF t] tree_heap_level2 [OF t]
    tree_heap_level3 [OF t]
  show ?thesis
  proof (cases "(dicts s ! r) px")
    case None
    then show ?thesis using r d(1)
      by (simp add: p action_defs is_solid.simps circuit_of_def lut1_of_def dict_at_def)
  next
    case (Some v)
    then obtain a where a: "(dicts s ! r) px = Some (Ref a)" "a < length (dicts s)"
      using d(2) by blast
    show ?thesis
    proof (cases "(dicts s ! a) py")
      case None
      then show ?thesis using r d(1) a
        by (simp add: p action_defs is_solid.simps circuit_of_def lut1_of_def lut2_of_def
            dict_at_def)
    next
      case (Some v')
      then obtain b where b: "(dicts s ! a) py = Some (Ref b)" "b < length (dicts s)"
        using d(3) [OF a(1)] by blast
      show ?thesis
      proof (cases "(dicts s ! b) pz")
        case None
        then show ?thesis using r d(1) a b
          by (simp add: p action_defs is_solid.simps circuit_of_def lut1_of_def lut2_of_def
              lut3_of_def dict_at_def)
      next
        case (Some v'')
        then obtain n where "(dicts s ! b) pz = Some (Num n)"
          using d(4) [OF a(1) b(1)] by blast
        then show ?thesis using r d(1) a b
          by (simp add: p action_defs is_solid.simps circuit_of_def lut1_of_def lut2_of_def
              lut3_of_def dict_at_def)
      qed
    qed
  qed
qed

lemma get_block_obj_refines:
  assumes "well_formed s"
  shows "fst (get_block_obj p s) = Inr (map_option Num (get_block (circuit_of s) p))"
proof -
  obtain px py pz where p: "p = (px, py, pz)" by (cases p)
  from assms obtain r where r: "obj_index_lut s = Ref r" and t: "tree_heap (dicts s) r"
    by (rule well_formedE)
  note d = tree_heap_root [OF t] tree_heap_level1 [OF t] tree_heap_level2 [OF t]
    tree_heap_level3 [OF t]
  show ?thesis
  proof (cases "(dicts s ! r) px")
    case None
    then show ?thesis using r d(1)
      by (simp add: p action_defs get_block.simps get_or_empty_def circuit_of_def lut1_of_def
          dict_at_def nth_append)
  next
    case (Some v)
    then obtain a where a: "(dicts s ! r) px = Some (Ref a)" "a < length (dicts s)"
      using d(2) by blast
    show ?thesis
    proof (cases "(dicts s ! a) py")
      case None
      then show ?thesis using r d(1) a
        by (simp add: p action_defs get_block.simps get_or_empty_def circuit_of_def lut1_of_def
            lut2_of_def dict_at_def nth_append)
    next
      case (Some v')
      then obtain b where b: "(dicts s ! a) py = Some (Ref b)" "b < length (dicts s)"
        using d(3) [OF a(1)] by blast
      show ?thesis
      proof (cases "(dicts s ! b) pz")
        case None
        then show ?thesis using r d(1) a b
          by (simp add: p action_defs get_block.simps get_or_empty_def circuit_of_def
              lut1_of_def lut2_of_def lut3_of_def dict_at_def nth_append)
      next
        case (Some v'')
        then obtain n where "(dicts s ! b) pz = Some (Num n)"
          using d(4) [OF a(1) b(1)] by blast
        then show ?thesis using r d(1) a b
          by (simp add: p action_defs get_block.simps get_or_empty_def circuit_of_def
              lut1_of_def lut2_of_def lut3_of_def dict_at_def nth_append)
      qed
    qed
  qed
qed

lemma well_formed_alloc:
  assumes "well_formed s"
  shows "well_formed (s\<lparr> dicts := dicts s @ xs \<rparr>) \<and>
         circuit_of (s\<lparr> dicts := dicts s @ xs \<rparr>) = circuit_of s"
proof -
  from assms obtain r where r: "obj_index_lut s = Ref r" and t: "tree_heap (dicts s) r"
    by (rule well_formedE)
  show ?thesis
    using r tree_heap_append [OF t, of xs] lut1_of_append [OF t, of xs]
    by (simp add: well_formed_def circuit_of_def)
qed

subsection \<open>The three writes of \<^verbatim>\<open>generate_lut\<close>\<close>

lemma tree_heap_set_slot:
  assumes t: "tree_heap h r" and a: "(h ! r) px = Some (Ref a)" and b: "(h ! a) py = Some (Ref b)"
  shows "tree_heap (h[b := (h ! b)(pz \<mapsto> Num n)]) r"
proof -
  let ?h = "h[b := (h ! b)(pz \<mapsto> Num n)]"
  note d = tree_heap_root [OF t] tree_heap_level1 [OF t] tree_heap_level2 [OF t]
  have br: "b \<noteq> r" and b1: "\<And>px'. (h ! r) px' \<noteq> Some (Ref b)" and bl: "b < length h"
    using d(3) [OF a b] by auto
  have r: "?h ! r = h ! r" using br by simp
  have l1: "?h ! a' = h ! a'" if "(h ! r) px' = Some (Ref a')" for px' a'
    using b1 [of px'] that by (auto simp: nth_list_update)
  show ?thesis
    unfolding tree_heap_def r
    apply (intro conjI allI impI)
    subgoal using d(1) by simp
    subgoal for px v using d(2) [of px v] by auto
    subgoal for px px' a using tree_heap_inj1 [OF t, of px a px'] by simp
    subgoal for px a py v using d(3) [of px a py v] l1 [of px a] by auto
    subgoal for px a py px' a' py' b
      using tree_heap_inj2 [OF t, of px a py b px' a' py'] l1 [of px a] l1 [of px' a'] by simp
    subgoal for px a py px' a' py' b
      using tree_heap_inj2 [OF t, of px a py b px' a' py'] l1 [of px a] l1 [of px' a'] by simp
    subgoal for px' a' py' b' pz' v
      using tree_heap_level3 [OF t, of px' a' py' b' pz' v] l1 [of px' a'] bl
      by (cases "b' = b") (auto split: if_splits)
    done
qed

lemma lut1_of_set_slot:
  assumes t: "tree_heap h r" and a: "(h ! r) px = Some (Ref a)" and b: "(h ! a) py = Some (Ref b)"
  shows "lut1_of (h[b := (h ! b)(pz \<mapsto> Num n)]) r =
           (lut1_of h r)(px \<mapsto> (lut2_of h a)(py \<mapsto> (lut3_of h b)(pz \<mapsto> n)))"
proof -
  let ?h = "h[b := (h ! b)(pz \<mapsto> Num n)]"
  note d = tree_heap_root [OF t] tree_heap_level1 [OF t] tree_heap_level2 [OF t]
  have br: "b \<noteq> r" and b1: "\<And>px'. (h ! r) px' \<noteq> Some (Ref b)" and bl: "b < length h"
    using d(3) [OF a b] by auto
  have r: "?h ! r = h ! r" using br by simp
  have l1: "dict_at ?h a' = dict_at h a'" if "(h ! r) px' = Some (Ref a')" for px' a'
    using b1 [of px'] that by (auto simp: dict_at_def nth_list_update)
  have new: "lut3_of ?h b = (lut3_of h b)(pz \<mapsto> n)"
    using bl by (auto simp: lut3_of_def dict_at_def fun_eq_iff)
  have old: "lut3_of ?h b' = lut3_of h b'" if "b' \<noteq> b" for b'
    using that by (auto simp: lut3_of_def dict_at_def fun_eq_iff)
  have 2: "lut2_of ?h a' = (if a' = a then (lut2_of h a)(py \<mapsto> (lut3_of h b)(pz \<mapsto> n))
                            else lut2_of h a')"
    if a': "(h ! r) px' = Some (Ref a')" for px' a'
  proof
    fix py'
    have al: "a < length h" "a' < length h" using d(2) [OF a] d(2) [OF a'] by auto
    show "lut2_of ?h a' py' = (if a' = a then (lut2_of h a)(py \<mapsto> (lut3_of h b)(pz \<mapsto> n))
                            else lut2_of h a') py'"
    proof (cases "dict_at h a' py'")
      case None
      then show ?thesis using l1 [OF a'] b al by (auto simp: lut2_of_def dict_at_def)
    next
      case (Some v)
      then obtain b' where b': "(h ! a') py' = Some (Ref b')"
        using d(3) [OF a', of py' v] al by (auto simp: dict_at_def)
      have "a' = a \<and> py' = py" if "b' = b"
      proof -
        have "px' = px \<and> py' = py" using tree_heap_inj2 [OF t a' _ a b] b' that by simp
        then show ?thesis using a a' by simp
      qed
      moreover have "b' = b" if "a' = a \<and> py' = py" using that b b' by simp
      ultimately have "b' = b \<longleftrightarrow> a' = a \<and> py' = py" by blast
      then show ?thesis
        using l1 [OF a'] b' al new old [of b'] by (auto simp: lut2_of_def dict_at_def)
    qed
  qed
  show ?thesis
  proof
    fix px'
    show "lut1_of ?h r px' =
           ((lut1_of h r)(px \<mapsto> (lut2_of h a)(py \<mapsto> (lut3_of h b)(pz \<mapsto> n)))) px'"
    proof (cases "(h ! r) px'")
      case None
      then show ?thesis using a d(1) by (auto simp: lut1_of_def r dict_at_def)
    next
      case (Some v)
      then obtain a' where a': "(h ! r) px' = Some (Ref a')" using d(2) [of px' v] by auto
      have "a' = a \<longleftrightarrow> px' = px" using tree_heap_inj1 [OF t a', of px] a a' by auto
      then show ?thesis using 2 [OF a'] a' d(1) by (auto simp: lut1_of_def r dict_at_def)
    qed
  qed
qed

lemma tree_heap_new_row:
  assumes t: "tree_heap h r" and a: "(h ! r) px = Some (Ref a)" and n: "(h ! a) py = None"
  shows "tree_heap ((h @ [Map.empty])[a := (h ! a)(py \<mapsto> Ref (length h))]) r"
proof -
  let ?h = "(h @ [Map.empty])[a := (h ! a)(py \<mapsto> Ref (length h))]"
  note d = tree_heap_root [OF t] tree_heap_level1 [OF t] tree_heap_level2 [OF t]
  have al: "a < length h" "a \<noteq> r" using d(2) [OF a] by auto
  have r: "?h ! r = h ! r" using al d(1) by (simp add: nth_append)
  have l1: "?h ! a' = (if a' = a then (h ! a)(py \<mapsto> Ref (length h)) else h ! a')"
    if "(h ! r) px' = Some (Ref a')" for px' a'
    using d(2) [OF that] by (auto simp: nth_list_update nth_append)
  have l2: "?h ! b' = h ! b'" if "(h ! r) px' = Some (Ref a')" "(h ! a') py' = Some (Ref b')"
    for px' a' py' b'
  proof -
    have "b' \<noteq> a" "b' < length h" using d(3) [OF that] a by auto
    then show ?thesis by (simp add: nth_append)
  qed
  have new: "?h ! length h = Map.empty" using al by (simp add: nth_list_update nth_append)
  have fresh: "(h ! r) px' \<noteq> Some (Ref (length h))" for px'
    using d(2) [of px' "Ref (length h)"] by auto
  have fresh2: "(h ! a') py' \<noteq> Some (Ref (length h))" if "(h ! r) px' = Some (Ref a')"
    for px' a' py'
    using d(3) [OF that, of py' "Ref (length h)"] by auto
  have row: "(h ! a') py' = Some v \<or> (a' = a \<and> py' = py \<and> v = Ref (length h))"
    if "(h ! r) px' = Some (Ref a')" "(?h ! a') py' = Some v" for px' a' py' v
    using that l1 [OF that(1)] by (auto split: if_splits)
  show ?thesis
    unfolding tree_heap_def r
    apply (intro conjI allI impI)
    subgoal using d(1) by simp
    subgoal for px v using d(2) [of px v] by auto
    subgoal for px px' a using tree_heap_inj1 [OF t, of px a px'] by simp
    subgoal for px' a' py' v
      using row [of px' a' py' v] d(3) [of px' a' py' v] d(1) fresh by auto
    subgoal for px1 a1 py1 px2 a2 py2 b
      using row [of px1 a1 py1 "Ref b"] row [of px2 a2 py2 "Ref b"]
        tree_heap_inj2 [OF t, of px1 a1 py1 b px2 a2 py2] fresh2 [of px1 a1 py1]
        fresh2 [of px2 a2 py2] tree_heap_inj1 [OF t, of px1 a px2]
      by auto
    subgoal for px1 a1 py1 px2 a2 py2 b
      using row [of px1 a1 py1 "Ref b"] row [of px2 a2 py2 "Ref b"]
        tree_heap_inj2 [OF t, of px1 a1 py1 b px2 a2 py2] fresh2 [of px1 a1 py1]
        fresh2 [of px2 a2 py2]
      by auto
    subgoal for px' a' py' b' pz' v
      using row [of px' a' py' "Ref b'"] new l2 [of px' a' py' b']
        tree_heap_level3 [OF t, of px' a' py' b' pz' v]
      by auto
    done
qed

lemma lut1_of_new_row:
  assumes t: "tree_heap h r" and a: "(h ! r) px = Some (Ref a)" and n: "(h ! a) py = None"
  shows "lut1_of ((h @ [Map.empty])[a := (h ! a)(py \<mapsto> Ref (length h))]) r =
           (lut1_of h r)(px \<mapsto> (lut2_of h a)(py \<mapsto> Map.empty))"
proof -
  let ?h = "(h @ [Map.empty])[a := (h ! a)(py \<mapsto> Ref (length h))]"
  note d = tree_heap_root [OF t] tree_heap_level1 [OF t] tree_heap_level2 [OF t]
  have al: "a < length h" "a \<noteq> r" using d(2) [OF a] by auto
  have r: "?h ! r = h ! r" using al d(1) by (simp add: nth_append)
  have l1: "?h ! a' = (if a' = a then (h ! a)(py \<mapsto> Ref (length h)) else h ! a')"
    if "(h ! r) px' = Some (Ref a')" for px' a'
    using d(2) [OF that] by (auto simp: nth_list_update nth_append)
  have new: "lut3_of ?h (length h) = Map.empty"
    using al by (auto simp: lut3_of_def dict_at_def fun_eq_iff nth_append)
  have old: "lut3_of ?h b' = lut3_of h b'"
    if "(h ! r) px' = Some (Ref a')" "(h ! a') py' = Some (Ref b')" for px' a' py' b'
  proof -
    have "b' \<noteq> a" "b' < length h" using d(3) [OF that] a by auto
    then show ?thesis by (simp add: lut3_of_def dict_at_def fun_eq_iff nth_append)
  qed
  have 2: "lut2_of ?h a' = (if a' = a then (lut2_of h a)(py \<mapsto> Map.empty) else lut2_of h a')"
    if a': "(h ! r) px' = Some (Ref a')" for px' a'
  proof
    fix py'
    have al': "a' < length h" using d(2) [OF a'] by auto
    show "lut2_of ?h a' py' =
          (if a' = a then (lut2_of h a)(py \<mapsto> Map.empty) else lut2_of h a') py'"
    proof (cases "(h ! a') py'")
      case None
      then show ?thesis using l1 [OF a'] al al' new by (auto simp: lut2_of_def dict_at_def)
    next
      case (Some v)
      then obtain b' where b': "(h ! a') py' = Some (Ref b')"
        using d(3) [OF a', of py' v] by auto
      have "\<not> (a' = a \<and> py' = py)" using b' n by auto
      then show ?thesis
        using l1 [OF a'] b' al al' old [OF a' b'] by (auto simp: lut2_of_def dict_at_def)
    qed
  qed
  show ?thesis
  proof
    fix px'
    show "lut1_of ?h r px' = ((lut1_of h r)(px \<mapsto> (lut2_of h a)(py \<mapsto> Map.empty))) px'"
    proof (cases "(h ! r) px'")
      case None
      then show ?thesis using a d(1) by (auto simp: lut1_of_def r dict_at_def)
    next
      case (Some v)
      then obtain a' where a': "(h ! r) px' = Some (Ref a')" using d(2) [of px' v] by auto
      have "a' = a \<longleftrightarrow> px' = px" using tree_heap_inj1 [OF t a', of px] a a' by auto
      then show ?thesis using 2 [OF a'] a' d(1) by (auto simp: lut1_of_def r dict_at_def)
    qed
  qed
qed

lemma tree_heap_new_plane:
  assumes t: "tree_heap h r" and n: "(h ! r) px = None"
  shows "tree_heap ((h @ [Map.empty])[r := (h ! r)(px \<mapsto> Ref (length h))]) r"
proof -
  let ?h = "(h @ [Map.empty])[r := (h ! r)(px \<mapsto> Ref (length h))]"
  note d = tree_heap_root [OF t] tree_heap_level1 [OF t] tree_heap_level2 [OF t]
  have r: "?h ! r = (h ! r)(px \<mapsto> Ref (length h))" using d(1) by (simp add: nth_append)
  have l1: "?h ! a' = h ! a'" if "(h ! r) px' = Some (Ref a')" for px' a'
    using d(2) [OF that] by (auto simp: nth_list_update nth_append)
  have l2: "?h ! b' = h ! b'" if "(h ! r) px' = Some (Ref a')" "(h ! a') py' = Some (Ref b')"
    for px' a' py' b'
    using d(3) [OF that] by (auto simp: nth_list_update nth_append)
  have new: "?h ! length h = Map.empty" using d(1) by (simp add: nth_list_update nth_append)
  have fresh: "(h ! r) px' \<noteq> Some (Ref (length h))" for px'
    using d(2) [of px' "Ref (length h)"] by auto
  have plane: "(h ! r) px' = Some v \<or> (px' = px \<and> v = Ref (length h))"
    if "((h ! r)(px \<mapsto> Ref (length h))) px' = Some v" for px' v
    using that by (auto split: if_splits)
  have c4: "\<exists>b. v = Ref b \<and> b < length ?h \<and> b \<noteq> r \<and>
              (\<forall>px''. ((h ! r)(px \<mapsto> Ref (length h))) px'' \<noteq> Some (Ref b))"
    if 1: "((h ! r)(px \<mapsto> Ref (length h))) px' = Some (Ref a')" and 2: "(?h ! a') py' = Some v"
    for px' a' py' v
  proof (cases "px' = px")
    case True
    then show ?thesis using 1 2 new by simp
  next
    case False
    then have o: "(h ! r) px' = Some (Ref a')" using 1 by simp
    then have "(h ! a') py' = Some v" using 2 l1 [OF o] by simp
    from d(3) [OF o this] show ?thesis by auto
  qed
  have c5: "px1 = px2 \<and> py1 = py2"
    if 1: "((h ! r)(px \<mapsto> Ref (length h))) px1 = Some (Ref a1)" and 2: "(?h ! a1) py1 = Some (Ref b)"
      and 3: "((h ! r)(px \<mapsto> Ref (length h))) px2 = Some (Ref a2)" and 4: "(?h ! a2) py2 = Some (Ref b)"
    for px1 a1 py1 px2 a2 py2 b
  proof -
    have p1: "px1 \<noteq> px" using 1 2 new by (cases "px1 = px") simp_all
    have p2: "px2 \<noteq> px" using 3 4 new by (cases "px2 = px") simp_all
    have o1: "(h ! r) px1 = Some (Ref a1)" using 1 p1 by simp
    have o2: "(h ! r) px2 = Some (Ref a2)" using 3 p2 by simp
    show ?thesis
      using tree_heap_inj2 [OF t o1 _ o2, of py1 b py2] 2 4 l1 [OF o1] l1 [OF o2] by simp
  qed
  have c6: "\<exists>n. v = Num n"
    if 1: "((h ! r)(px \<mapsto> Ref (length h))) px' = Some (Ref a')" and 2: "(?h ! a') py' = Some (Ref b')"
      and 3: "(?h ! b') pz' = Some v"
    for px' a' py' b' pz' v
  proof -
    have p1: "px' \<noteq> px" using 1 2 new by (cases "px' = px") simp_all
    have o1: "(h ! r) px' = Some (Ref a')" using 1 p1 by simp
    have o2: "(h ! a') py' = Some (Ref b')" using 2 l1 [OF o1] by simp
    show ?thesis using tree_heap_level3 [OF t o1 o2, of pz' v] 3 l2 [OF o1 o2] by simp
  qed
  show ?thesis
    unfolding tree_heap_def r
    apply (intro conjI allI impI)
    subgoal using d(1) by simp
    subgoal for px' v using plane [of px' v] d(2) [of px' v] d(1) by auto
    subgoal for px1 px2 a
      using plane [of px1 "Ref a"] plane [of px2 "Ref a"] tree_heap_inj1 [OF t, of px1 a px2]
        fresh [of px1] fresh [of px2] by auto
    subgoal for px' a' py' v using c4 [of px' a' py' v] by simp
    subgoal for px1 a1 py1 px2 a2 py2 b using c5 [of px1 a1 py1 b px2 a2 py2] by simp
    subgoal for px1 a1 py1 px2 a2 py2 b using c5 [of px1 a1 py1 b px2 a2 py2] by simp
    subgoal for px' a' py' b' pz' v using c6 [of px' a' py' b' pz' v] by simp
    done
qed

lemma lut1_of_new_plane:
  assumes t: "tree_heap h r" and n: "(h ! r) px = None"
  shows "lut1_of ((h @ [Map.empty])[r := (h ! r)(px \<mapsto> Ref (length h))]) r =
           (lut1_of h r)(px \<mapsto> Map.empty)"
proof -
  let ?h = "(h @ [Map.empty])[r := (h ! r)(px \<mapsto> Ref (length h))]"
  note d = tree_heap_root [OF t] tree_heap_level1 [OF t] tree_heap_level2 [OF t]
  have r: "?h ! r = (h ! r)(px \<mapsto> Ref (length h))" using d(1) by (simp add: nth_append)
  have l1: "?h ! a' = h ! a'" if "(h ! r) px' = Some (Ref a')" for px' a'
    using d(2) [OF that] by (auto simp: nth_list_update nth_append)
  have new: "lut2_of ?h (length h) = Map.empty"
    using d(1) by (auto simp: lut2_of_def dict_at_def fun_eq_iff nth_append)
  have 3: "lut3_of ?h b' = lut3_of h b'"
    if "(h ! r) px' = Some (Ref a')" "(h ! a') py' = Some (Ref b')" for px' a' py' b'
    using d(3) [OF that] by (auto simp: lut3_of_def dict_at_def fun_eq_iff nth_append nth_list_update)
  have 2: "lut2_of ?h a' = lut2_of h a'" if a': "(h ! r) px' = Some (Ref a')" for px' a'
  proof
    fix py'
    have al': "a' < length h" using d(2) [OF a'] by auto
    show "lut2_of ?h a' py' = lut2_of h a' py'"
    proof (cases "(h ! a') py'")
      case None
      then show ?thesis using l1 [OF a'] al' by (auto simp: lut2_of_def dict_at_def)
    next
      case (Some v)
      then obtain b' where b': "(h ! a') py' = Some (Ref b')"
        using d(3) [OF a', of py' v] by auto
      then show ?thesis
        using l1 [OF a'] al' 3 [OF a' b'] by (auto simp: lut2_of_def dict_at_def)
    qed
  qed
  show ?thesis
  proof
    fix px'
    show "lut1_of ?h r px' = ((lut1_of h r)(px \<mapsto> Map.empty)) px'"
    proof (cases "px' = px")
      case True
      then show ?thesis using d(1) new by (simp add: lut1_of_def r dict_at_def)
    next
      case False
      show ?thesis
      proof (cases "(h ! r) px'")
        case None
        then show ?thesis using False d(1) by (simp add: lut1_of_def r dict_at_def)
      next
        case (Some v)
        then obtain a' where a': "(h ! r) px' = Some (Ref a')" using d(2) [of px' v] by auto
        then show ?thesis using False 2 [OF a'] d(1) by (simp add: lut1_of_def r dict_at_def)
      qed
    qed
  qed
qed

subsection \<open>\<^verbatim>\<open>add_logic\<close> on the object and by value\<close>

lemma lut1_of_at:
  "r < length h \<Longrightarrow> (h ! r) px = Some (Ref a) \<Longrightarrow> lut1_of h r px = Some (lut2_of h a)"
  by (simp add: lut1_of_def dict_at_def)

lemma lut1_of_None: "r < length h \<Longrightarrow> (h ! r) px = None \<Longrightarrow> lut1_of h r px = None"
  by (simp add: lut1_of_def dict_at_def)

lemma lut2_of_at:
  "a < length h \<Longrightarrow> (h ! a) py = Some (Ref b) \<Longrightarrow> lut2_of h a py = Some (lut3_of h b)"
  by (simp add: lut2_of_def dict_at_def)

lemma lut2_of_None: "a < length h \<Longrightarrow> (h ! a) py = None \<Longrightarrow> lut2_of h a py = None"
  by (simp add: lut2_of_def dict_at_def)

lemma lut3_of_at:
  "b < length h \<Longrightarrow> (h ! b) pz = Some (Num n) \<Longrightarrow> lut3_of h b pz = Some n"
  by (simp add: lut3_of_def dict_at_def)

lemma lut3_of_None: "b < length h \<Longrightarrow> (h ! b) pz = None \<Longrightarrow> lut3_of h b pz = None"
  by (simp add: lut3_of_def dict_at_def)

lemma generate_lut_obj_refines:
  assumes "well_formed s"
  shows "\<exists>s'. generate_lut_obj p s = (Inr (), s') \<and> well_formed s' \<and>
              circuit_of s' = generate_lut (circuit_of s) p"
proof -
  obtain px py pz where p: "p = (px, py, pz)" by (cases p)
  from assms obtain r where r: "obj_index_lut s = Ref r" and t: "tree_heap (dicts s) r"
    by (rule well_formedE)
  define h where "h = dicts s"
  define k where "k = obj_id_counter s"
  have t: "tree_heap h r" using t by (simp add: h_def)
  note d = tree_heap_root [OF t] tree_heap_level1 [OF t] tree_heap_level2 [OF t]
    tree_heap_level3 [OF t]
  have fin: ?thesis
    if run: "generate_lut_obj p s = (Inr (), s\<lparr> dicts := h', obj_id_counter := k + 1 \<rparr>)"
      and t': "tree_heap h' r"
      and l': "lut1_of h' r = index_lut (generate_lut (circuit_of s) p)" for h'
  proof -
    have "circuit_of (s\<lparr> dicts := h', obj_id_counter := k + 1 \<rparr>) = generate_lut (circuit_of s) p"
      using l' r by (simp add: circuit_of_def p generate_lut.simps Let_def k_def)
    moreover have "well_formed (s\<lparr> dicts := h', obj_id_counter := k + 1 \<rparr>)"
      using t' r by (simp add: well_formed_def)
    ultimately show ?thesis using run by blast
  qed
  have L: "index_lut (circuit_of s) = lut1_of h r" using r by (simp add: circuit_of_def h_def)
  have K: "id_counter (circuit_of s) = k" by (simp add: circuit_of_def k_def)
  show ?thesis
  proof (cases "(h ! r) px")
    case None
    define h1 where "h1 = (h @ [Map.empty])[r := (h ! r)(px \<mapsto> Ref (length h))]"
    define h2 where "h2 = (h1 @ [Map.empty])[length h := (h1 ! length h)(py \<mapsto> Ref (length h1))]"
    define h3 where "h3 = h2[length h1 := (h2 ! length h1)(pz \<mapsto> Num k)]"
    have len1: "length h1 = Suc (length h)" by (simp add: h1_def)
    have t1: "tree_heap h1 r" unfolding h1_def using t None by (rule tree_heap_new_plane)
    have a1: "(h1 ! r) px = Some (Ref (length h))" using d(1) by (simp add: h1_def nth_append)
    have n1: "(h1 ! length h) py = None" using d(1) by (simp add: h1_def nth_append)
    have t2: "tree_heap h2 r" unfolding h2_def using t1 a1 n1 by (rule tree_heap_new_row)
    have a2: "(h2 ! r) px = Some (Ref (length h))"
      using d(1) a1 by (simp add: h2_def len1 nth_append)
    have b2: "(h2 ! length h) py = Some (Ref (length h1))" by (simp add: h2_def len1 nth_append)
    have t3: "tree_heap h3 r" unfolding h3_def using t2 a2 b2 by (rule tree_heap_set_slot)
    have l1: "lut1_of h1 r = (lut1_of h r)(px \<mapsto> Map.empty)"
      unfolding h1_def using t None by (rule lut1_of_new_plane)
    have l2: "lut1_of h2 r = (lut1_of h1 r)(px \<mapsto> (lut2_of h1 (length h))(py \<mapsto> Map.empty))"
      unfolding h2_def using t1 a1 n1 by (rule lut1_of_new_row)
    have l3: "lut1_of h3 r =
        (lut1_of h2 r)(px \<mapsto> (lut2_of h2 (length h))(py \<mapsto> (lut3_of h2 (length h1))(pz \<mapsto> k)))"
      unfolding h3_def using t2 a2 b2 by (rule lut1_of_set_slot)
    have e1: "lut2_of h1 (length h) = Map.empty"
      using l1 lut1_of_at [OF tree_heap_root [OF t1] a1] by (simp add: fun_eq_iff split: if_splits)
    have e2: "lut2_of h2 (length h) = [py \<mapsto> Map.empty]"
      using l2 lut1_of_at [OF tree_heap_root [OF t2] a2] e1 by (simp add: fun_eq_iff split: if_splits)
    have e3: "lut3_of h2 (length h1) = Map.empty"
      using e2 lut2_of_at [OF _ b2] by (simp add: h2_def len1 fun_eq_iff split: if_splits)
    have run: "generate_lut_obj p s = (Inr (), s\<lparr> dicts := h3, obj_id_counter := k + 1 \<rparr>)"
      using r d(1) None
      by (simp add: p action_defs h3_def h2_def h1_def h_def [symmetric] k_def [symmetric]
          nth_append)
    have "lut1_of h3 r = index_lut (generate_lut (circuit_of s) p)"
      using None d(1)
      by (simp add: l3 l2 l1 e1 e2 e3 p generate_lut.simps L K Let_def get_or_empty_def
          lut1_of_None)
    with run t3 show ?thesis by (rule fin)
  next
    case (Some v)
    then obtain a where a: "(h ! r) px = Some (Ref a)" and al: "a < length h" "a \<noteq> r"
      using d(2) by blast
    have la: "lut1_of h r px = Some (lut2_of h a)" using d(1) a by (rule lut1_of_at)
    show ?thesis
    proof (cases "(h ! a) py")
      case None
      define h1 where "h1 = (h @ [Map.empty])[a := (h ! a)(py \<mapsto> Ref (length h))]"
      define h2 where "h2 = h1[length h := (h1 ! length h)(pz \<mapsto> Num k)]"
      have t1: "tree_heap h1 r" unfolding h1_def using t a None by (rule tree_heap_new_row)
      have a1: "(h1 ! r) px = Some (Ref a)" using d(1) a al by (simp add: h1_def nth_append)
      have b1: "(h1 ! a) py = Some (Ref (length h))" using al by (simp add: h1_def nth_append)
      have t2: "tree_heap h2 r" unfolding h2_def using t1 a1 b1 by (rule tree_heap_set_slot)
      have l1: "lut1_of h1 r = (lut1_of h r)(px \<mapsto> (lut2_of h a)(py \<mapsto> Map.empty))"
        unfolding h1_def using t a None by (rule lut1_of_new_row)
      have l2: "lut1_of h2 r =
          (lut1_of h1 r)(px \<mapsto> (lut2_of h1 a)(py \<mapsto> (lut3_of h1 (length h))(pz \<mapsto> k)))"
        unfolding h2_def using t1 a1 b1 by (rule lut1_of_set_slot)
      have e1: "lut2_of h1 a = (lut2_of h a)(py \<mapsto> Map.empty)"
        using l1 lut1_of_at [OF tree_heap_root [OF t1] a1] by (simp add: fun_eq_iff split: if_splits)
      have e2: "lut3_of h1 (length h) = Map.empty"
        using e1 lut2_of_at [OF _ b1] al by (simp add: h1_def fun_eq_iff split: if_splits)
      have run: "generate_lut_obj p s = (Inr (), s\<lparr> dicts := h2, obj_id_counter := k + 1 \<rparr>)"
        using r d(1) a al None
        by (simp add: p action_defs h2_def h1_def h_def [symmetric] k_def [symmetric]
            nth_append)
      have "lut1_of h2 r = index_lut (generate_lut (circuit_of s) p)"
        using None al
        by (simp add: l2 l1 e1 e2 p generate_lut.simps L K Let_def get_or_empty_def la
            lut2_of_None)
      with run t2 show ?thesis by (rule fin)
    next
      case (Some v')
      then obtain b where b: "(h ! a) py = Some (Ref b)" and bl: "b < length h"
        using d(3) [OF a] by blast
      have lb: "lut2_of h a py = Some (lut3_of h b)" using al(1) b by (rule lut2_of_at)
      show ?thesis
      proof (cases "(h ! b) pz")
        case None
        define h1 where "h1 = h[b := (h ! b)(pz \<mapsto> Num k)]"
        have t1: "tree_heap h1 r" unfolding h1_def using t a b by (rule tree_heap_set_slot)
        have l1: "lut1_of h1 r =
            (lut1_of h r)(px \<mapsto> (lut2_of h a)(py \<mapsto> (lut3_of h b)(pz \<mapsto> k)))"
          unfolding h1_def using t a b by (rule lut1_of_set_slot)
        have run: "generate_lut_obj p s = (Inr (), s\<lparr> dicts := h1, obj_id_counter := k + 1 \<rparr>)"
          using r d(1) a al b bl None
          by (simp add: p action_defs h1_def h_def [symmetric] k_def [symmetric])
        have "lut1_of h1 r = index_lut (generate_lut (circuit_of s) p)"
          using None bl
          by (simp add: l1 p generate_lut.simps L K Let_def get_or_empty_def la lb lut3_of_None)
        with run t1 show ?thesis by (rule fin)
      next
        case (Some v'')
        then obtain n where n: "(h ! b) pz = Some (Num n)" using d(4) [OF a b] by blast
        have ln: "lut3_of h b pz = Some n" using bl n by (rule lut3_of_at)
        have run: "generate_lut_obj p s = (Inr (), s\<lparr> dicts := h, obj_id_counter := k + 1 \<rparr>)"
          using r d(1) a al b bl n
          by (simp add: p action_defs h_def [symmetric] k_def [symmetric])
        have "lut1_of h r = index_lut (generate_lut (circuit_of s) p)"
          using la lb ln
          by (simp add: p generate_lut.simps L K Let_def get_or_empty_def fun_upd_idem)
        with run t show ?thesis by (rule fin)
      qed
    qed
  qed
qed

lemma add_logic_obj_refines:
  assumes "well_formed s"
  shows "\<exists>s'. add_logic_obj g s = (Inr (), s') \<and> well_formed s' \<and>
              circuit_of s' = add_logic (circuit_of s) g"
proof -
  let ?s = "s\<lparr> obj_logic_gates := obj_logic_gates s @ [g] \<rparr>"
  have w: "well_formed ?s" using assms by (simp add: well_formed_def split: val.splits)
  have c: "circuit_of ?s = (circuit_of s)\<lparr> logic_gates := logic_gates (circuit_of s) @ [g] \<rparr>"
    by (simp add: circuit_of_def split: val.splits)
  from generate_lut_obj_refines [OF w, of "position g"] show ?thesis
    by (simp add: add_logic_obj_def then_do_def append_logic_gate_def add_logic_def c)
qed

subsection \<open>Sequences of calls\<close>

lemma calls_well_formed:
  assumes "well_formed s"
  shows "well_formed (snd (calls qs s)) \<and> circuit_of (snd (calls qs s)) = circuit_of s"
proof -
  obtain n where "snd (calls qs s) = s\<lparr> dicts := dicts s @ replicate n Map.empty \<rparr>"
    using calls_allocates by blast
  then show ?thesis using well_formed_alloc [OF assms] by simp
qed

lemma call_refines:
  assumes "well_formed s"
  shows "fst (call q s) = Inr (answer_of (circuit_of s) q)"
proof (cases q)
  case (IsSolid p)
  then show ?thesis
    using is_solid_obj_refines [OF assms, of p]
    by (simp add: then_do_def return_val_def answer_of_def)
next
  case (GetBlock p)
  then show ?thesis
    using get_block_obj_refines [OF assms, of p]
    by (cases "get_block_obj p s") (simp add: then_do_def return_val_def answer_of_def)
qed

lemma calls_refines:
  assumes "well_formed s"
  shows "fst (calls qs s) = map (\<lambda>q. Inr (answer_of (circuit_of s) q)) qs"
  using assms
proof (induction qs arbitrary: s)
  case Nil
  show ?case by simp
next
  case (Cons q qs)
  have s': "well_formed (snd (call q s))" "circuit_of (snd (call q s)) = circuit_of s"
    using calls_well_formed [OF Cons.prems, of "[q]"] by (simp_all add: split_beta)
  show ?case
    using call_refines [OF Cons.prems, of q] Cons.IH [OF s'(1)] s'(2)
    by (simp add: split_beta)
qed

text \<open>One gate placed at \<open>(0, 0, 0)\<close>, then four calls.\<close>

lemma add_logic_obj_example:
  "add_logic_obj (LogicGate_init (0, 0, 0) ''and'' ''eeeeee'') Circuit_new =
     (Inr (),
      \<lparr> obj_logic_gates = [LogicGate_init (0, 0, 0) ''and'' ''eeeeee''], obj_index_lut = Ref 0,
        obj_id_counter = 1,
        dicts = [[0 \<mapsto> Ref 1], [0 \<mapsto> Ref 2], [0 \<mapsto> Num 0]] \<rparr>)"
  by (simp add: add_logic_obj_def append_logic_gate_def action_defs Circuit_new_def
      numeral_2_eq_2)

lemma calls_example:
  "calls [IsSolid (0, 0, 0), GetBlock (0, 0, 0), GetBlock (9, 9, 9), IsSolid (0, 0, 0)]
     \<lparr> obj_logic_gates = [g], obj_index_lut = Ref 0, obj_id_counter = 1,
       dicts = [[0 \<mapsto> Ref 1], [0 \<mapsto> Ref 2], [0 \<mapsto> Num 0]] \<rparr> =
   ([Inr (Bool True), Inr (Slot (Some (Num 0))), Inr (Slot None), Inr (Bool True)],
    \<lparr> obj_logic_gates = [g], obj_index_lut = Ref 0, obj_id_counter = 1,
       dicts = [[0 \<mapsto> Ref 1], [0 \<mapsto> Ref 2], [0 \<mapsto> Num 0],
                Map.empty, Map.empty, Map.empty, Map.empty] \<rparr>)"
  by (simp add: action_defs nth_append)

text \<open>
  Claim C9.  Any sequence of \<^verbatim>\<open>is_solid\<close> and \<^verbatim>\<open>get_block\<close> calls, from any state of the
  object, leaves the three attributes and every existing dict object as they were: the
  state afterwards is the state before with some empty dicts added to the store (the
  \<^verbatim>\<open>{}\<close> defaults that \<^verbatim>\<open>get_block\<close> evaluates, which nothing refers to), and
  \<^verbatim>\<open>is_solid\<close> leaves the state exactly as it was.  When the state is one the class
  builds, the circuit it stands for (gate list, spatial index, counter) is the same before
  and after, and every call answers as the by-value method does on that circuit.
\<close>

theorem calls_frame:
  "(\<exists>n. snd (calls qs s) = s\<lparr> dicts := dicts s @ replicate n Map.empty \<rparr>) \<and>
   snd (is_solid_obj p s) = s \<and>
   (well_formed s \<longrightarrow>
      well_formed (snd (calls qs s)) \<and> circuit_of (snd (calls qs s)) = circuit_of s \<and>
      fst (calls qs s) = map (\<lambda>q. Inr (answer_of (circuit_of s) q)) qs)"
  using calls_allocates [of qs s] is_solid_obj_unchanged [of p] calls_well_formed [of s qs]
    calls_refines [of s qs]
  by (simp add: unchanged_def)

theorem calls_frame_witness:
  "well_formed (snd (add_logic_obj (LogicGate_init (0, 0, 0) ''and'' ''eeeeee'') Circuit_new)) \<and>
   circuit_of (snd (calls [IsSolid (0, 0, 0), GetBlock (0, 0, 0), GetBlock (9, 9, 9)]
      (snd (add_logic_obj (LogicGate_init (0, 0, 0) ''and'' ''eeeeee'') Circuit_new)))) =
     add_logic Circuit_init (LogicGate_init (0, 0, 0) ''and'' ''eeeeee'') \<and>
   fst (calls [IsSolid (0, 0, 0), GetBlock (0, 0, 0), GetBlock (9, 9, 9)]
      (snd (add_logic_obj (LogicGate_init (0, 0, 0) ''and'' ''eeeeee'') Circuit_new))) =
     [Inr (Bool True), Inr (Slot (Some (Num 0))), Inr (Slot None)]"
proof -
  let ?g = "LogicGate_init (0, 0, 0) ''and'' ''eeeeee''"
  let ?s = "snd (add_logic_obj ?g Circuit_new)"
  have s: "well_formed ?s" "circuit_of ?s = add_logic Circuit_init ?g"
    using add_logic_obj_refines [OF well_formed_Circuit_new, of ?g]
    by (auto simp: circuit_of_Circuit_new)
  from calls_frame [of "[IsSolid (0, 0, 0), GetBlock (0, 0, 0), GetBlock (9, 9, 9)]" ?s] s
  show ?thesis
    by (simp add: answer_of_def is_solid_get_block get_block_add_logic)
qed

section \<open>Placing a gate on an occupied coordinate\<close>

text \<open>
  Claim C4, as amended.  When \<^verbatim>\<open>add_logic\<close> is given a gate whose coordinate is already
  registered, the gate is appended to the gate list and the counter advances, but
  \<^verbatim>\<open>generate_lut\<close> writes a slot only where none is registered: the spatial index is
  unchanged and a lookup at the coordinate still returns the slot of the gate placed there
  first (first writer wins).  The later gate has the last slot of the list and is not what
  the lookup returns.
\<close>

theorem add_logic_occupied_keeps_first:
  assumes "reachable c" and "is_solid c (position g)"
  shows "\<exists>i. get_block c (position g) = Some i \<and> i < length (logic_gates c) \<and>
           position (logic_gates c ! i) = position g \<and>
           logic_gates (add_logic c g) = logic_gates c @ [g] \<and>
           get_block (add_logic c g) (position g) = Some i \<and>
           logic_gates (add_logic c g) ! i = logic_gates c ! i \<and>
           index_lut (add_logic c g) = index_lut c \<and>
           id_counter (add_logic c g) = id_counter c + 1"
proof -
  obtain i where i: "get_block c (position g) = Some i"
    using assms(2) by (auto simp: is_solid_get_block)
  note s = index_ok_slot [OF reachable_index_ok [OF assms(1)] i]
  have "get_block (add_logic c g) (position g) = Some i"
    using i by (simp add: get_block_add_logic)
  moreover have "logic_gates (add_logic c g) ! i = logic_gates c ! i"
    using s by (simp add: nth_append)
  ultimately show ?thesis
    using i s index_lut_add_logic_solid [OF assms(2)] by simp
qed

theorem add_logic_occupied_keeps_first_witness:
  "get_block (add_logic (add_logic Circuit_init (LogicGate_init (0, 0, 0) ''and'' ''eeeeee''))
      (LogicGate_init (0, 0, 0) ''or'' ''eeeeee'')) (0, 0, 0) = Some 0 \<and>
   logic_gates (add_logic (add_logic Circuit_init (LogicGate_init (0, 0, 0) ''and'' ''eeeeee''))
      (LogicGate_init (0, 0, 0) ''or'' ''eeeeee'')) ! 0 = LogicGate_init (0, 0, 0) ''and'' ''eeeeee''"
proof -
  let ?c = "add_logic Circuit_init (LogicGate_init (0, 0, 0) ''and'' ''eeeeee'')"
  let ?g = "LogicGate_init (0, 0, 0) ''or'' ''eeeeee''"
  have r: "reachable ?c" by (intro reachable_add reachable_init)
  have s: "is_solid ?c (position ?g)" by (simp add: is_solid_get_block get_block_add_logic)
  from add_logic_occupied_keeps_first [OF r s] show ?thesis
    by (auto simp: get_block_add_logic)
qed

text \<open>
  The claim as stated (the lookup returns the slot of the later gate) fails: after two
  gates are placed at \<open>(0, 0, 0)\<close> the lookup returns slot 0, not slot 1.
\<close>

theorem add_logic_last_writer_counterexample:
  "is_solid (add_logic Circuit_init (LogicGate_init (0, 0, 0) ''and'' ''eeeeee''))
     (position (LogicGate_init (0, 0, 0) ''or'' ''eeeeee'')) \<and>
   logic_gates (add_logic (add_logic Circuit_init (LogicGate_init (0, 0, 0) ''and'' ''eeeeee''))
      (LogicGate_init (0, 0, 0) ''or'' ''eeeeee'')) =
     [LogicGate_init (0, 0, 0) ''and'' ''eeeeee'', LogicGate_init (0, 0, 0) ''or'' ''eeeeee''] \<and>
   get_block (add_logic (add_logic Circuit_init (LogicGate_init (0, 0, 0) ''and'' ''eeeeee''))
      (LogicGate_init (0, 0, 0) ''or'' ''eeeeee'')) (0, 0, 0) = Some 0 \<and>
   get_block (add_logic (add_logic Circuit_init (LogicGate_init (0, 0, 0) ''and'' ''eeeeee''))
      (LogicGate_init (0, 0, 0) ''or'' ''eeeeee'')) (0, 0, 0) \<noteq> Some 1"
  by (simp add: get_block_add_logic is_solid_get_block)

section \<open>Properties of \<^verbatim>\<open>wire_gates\<close>\<close>

text \<open>
  Claim C5, as amended.  On a circuit built through the class, \<^verbatim>\<open>wire_gates\<close> raises
  its arity error exactly when the two lists differ in length and neither has length 1
  (an empty list against a list of two or more positions included), and in every other
  case the call returns.
\<close>

theorem wire_gates_raises_iff:
  assumes "reachable c"
  shows "(wire_gates c ins outs = Inl ArityMismatch) =
           (length ins \<noteq> length outs \<and> length ins \<noteq> 1 \<and> length outs \<noteq> 1) \<and>
         (\<exists>c'. wire_gates c ins outs = Inr c') =
           (\<not> (length ins \<noteq> length outs \<and> length ins \<noteq> 1 \<and> length outs \<noteq> 1))"
proof -
  have 1: "(wire_gates c ins outs = Inl ArityMismatch) = arity_mismatch ins outs"
    by (rule wire_gates_ArityMismatch)
  have 2: "\<exists>c'. wire_gates c ins outs = Inr c'" if "\<not> arity_mismatch ins outs"
    using wire_gates_closed_form [OF reachable_slots_ok [OF assms] that] by simp
  have 3: "\<not> arity_mismatch ins outs" if "wire_gates c ins outs = Inr c'" for c'
    using 1 that by auto
  show ?thesis
    using 1 2 3 unfolding arity_mismatch_def by blast
qed

theorem wire_gates_raises_iff_witness:
  "wire_gates Circuit_init [(0, 0, 0), (1, 0, 0)] [(0, 1, 0), (1, 1, 0), (2, 1, 0)]
     = Inl ArityMismatch \<and>
   wire_gates Circuit_init [] [(0, 1, 0), (1, 1, 0)] = Inl ArityMismatch \<and>
   (\<exists>c'. wire_gates Circuit_init [(0, 0, 0)] [(0, 1, 0), (1, 1, 0), (2, 1, 0)] = Inr c') \<and>
   (\<exists>c'. wire_gates Circuit_init [] [(0, 1, 0)] = Inr c')"
  using wire_gates_raises_iff [OF reachable_init, of "[(0, 0, 0), (1, 0, 0)]" "[(0, 1, 0), (1, 1, 0), (2, 1, 0)]"]
    wire_gates_raises_iff [OF reachable_init, of "[]" "[(0, 1, 0), (1, 1, 0)]"]
    wire_gates_raises_iff [OF reachable_init, of "[(0, 0, 0)]" "[(0, 1, 0), (1, 1, 0), (2, 1, 0)]"]
    wire_gates_raises_iff [OF reachable_init, of "[]" "[(0, 1, 0)]"]
  by simp

text \<open>
  The claim as stated (the error only when both lists have two or more positions) fails
  for an empty input list against two output positions.
\<close>

theorem wire_gates_empty_list_counterexample:
  "wire_gates Circuit_init [] [(0, 0, 0), (1, 0, 0)] = Inl ArityMismatch \<and>
   \<not> 2 \<le> length ([] :: pos list)"
  by (simp add: wire_gates_def)

text \<open>
  Claim C7.  On a circuit built through the class and lists of equal length, the call
  returns; the index, the counter and the number of gates are unchanged; the gate in each
  slot gets exactly the targets of the pairs \<open>(input[i], output[i])\<close> whose two ends are
  occupied and whose input lies in that slot, in the order of \<open>i\<close>, and is otherwise as
  before; and when no pair has both ends occupied the circuit is unchanged, as in
  \<^verbatim>\<open>wire([(9,9,9)], [(0,0,0)])\<close>.
\<close>

theorem wire_gates_pairwise:
  assumes "reachable c" and "length ins = length outs"
  shows "\<exists>c'. wire_gates c ins outs = Inr c' \<and>
           index_lut c' = index_lut c \<and> id_counter c' = id_counter c \<and>
           length (logic_gates c') = length (logic_gates c) \<and>
           (\<forall>s<length (logic_gates c).
              logic_gates c' ! s =
                (logic_gates c ! s)\<lparr>connections :=
                   connections (logic_gates c ! s) @ pair_targets c s (zip ins outs)\<rparr>) \<and>
           ((\<forall>(a, b) \<in> set (zip ins outs). \<not> is_solid c a \<or> \<not> is_solid c b) \<longrightarrow> c' = c)"
proof -
  let ?ps = "slot_pairs (get_block c) (zip ins outs)"
  have ar: "\<not> arity_mismatch ins outs" using assms(2) by (simp add: arity_mismatch_def)
  have w: "wire_gates c ins outs = Inr (fold add_conn ?ps c)"
    using wire_gates_closed_form [OF reachable_slots_ok [OF assms(1)] ar] assms(2)
    by (simp add: arity_pairs_def)
  have skip: "fold add_conn ?ps c = c"
    if "\<forall>(a, b) \<in> set (zip ins outs). \<not> is_solid c a \<or> \<not> is_solid c b"
  proof -
    have "?ps = []"
      using that by (intro slot_pairs_unoccupied) (auto simp: is_solid_get_block)
    then show ?thesis by simp
  qed
  show ?thesis
    using w skip by (simp add: nth_fold_add_conn pair_targets_def)
qed

theorem wire_gates_pairwise_witness:
  "wire_gates (add_logic Circuit_init (LogicGate_init (0, 0, 0) ''and'' ''eeeeee''))
     [(9, 9, 9)] [(0, 0, 0)] =
   Inr (add_logic Circuit_init (LogicGate_init (0, 0, 0) ''and'' ''eeeeee''))"
proof -
  let ?c = "add_logic Circuit_init (LogicGate_init (0, 0, 0) ''and'' ''eeeeee'')"
  have r: "reachable ?c" by (intro reachable_add reachable_init)
  have n: "\<not> is_solid ?c (9, 9, 9)" by (simp add: is_solid_get_block get_block_add_logic)
  from wire_gates_pairwise [OF r, of "[(9, 9, 9)]" "[(0, 0, 0)]"] n show ?thesis
    by auto
qed

section \<open>Binary strings\<close>

lemma bin_small: "n < 2 \<Longrightarrow> bin n = [if n = 0 then CHR ''0'' else CHR ''1'']"
  by (subst bin.simps) simp

lemma bin_large:
  "2 \<le> n \<Longrightarrow> bin n = bin (n div 2) @ [if n mod 2 = 0 then CHR ''0'' else CHR ''1'']"
  by (subst bin.simps) simp

lemma bin_value_snoc:
  "bin_value (s @ [ch]) = 2 * bin_value s + (if ch = CHR ''1'' then 1 else 0)"
  by (simp add: bin_value_def)

lemma bin_value_bin: "bin_value (bin n) = n"
proof (induction n rule: bin.induct)
  case (1 n)
  show ?case
  proof (cases "n < 2")
    case True
    then show ?thesis by (auto simp: bin_small bin_value_def)
  next
    case False
    then have "bin_value (bin (n div 2)) = n div 2" using 1 by simp
    then show ?thesis using False by (simp add: bin_large bin_value_snoc) presburger
  qed
qed

lemma bin_value_zeros: "bin_value (replicate k CHR ''0'' @ s) = bin_value s"
proof -
  have "foldl (\<lambda>a ch. 2 * a + (if ch = CHR ''1'' then 1 else 0)) 0 (replicate k CHR ''0'') = (0::nat)"
    by (induction k) simp_all
  then show ?thesis by (simp add: bin_value_def)
qed

lemma set_bin: "set (bin n) \<subseteq> {CHR ''0'', CHR ''1''}"
proof (induction n rule: bin.induct)
  case (1 n)
  show ?case
  proof (cases "n < 2")
    case True
    then show ?thesis by (simp add: bin_small)
  next
    case False
    then show ?thesis using 1 by (simp add: bin_large)
  qed
qed

lemma length_bin_pos: "0 < length (bin n)"
  by (cases "n < 2") (simp_all add: bin_small bin_large)

lemma length_bin_le: "0 < m \<Longrightarrow> (length (bin n) \<le> m) = (n < 2 ^ m)"
proof (induction n arbitrary: m rule: bin.induct)
  case (1 n)
  show ?case
  proof (cases "n < 2")
    case True
    have "(2::nat) ^ 1 \<le> 2 ^ m" using "1.prems" by (intro power_increasing) simp_all
    then have "n < 2 ^ m" using True by simp
    then show ?thesis using True "1.prems" by (simp add: bin_small Suc_le_eq)
  next
    case False
    obtain k where m: "m = Suc k" using "1.prems" by (cases m) auto
    show ?thesis
    proof (cases "k = 0")
      case True
      then show ?thesis using False m length_bin_pos [of "n div 2"] by (simp add: bin_large)
    next
      case kpos: False
      then have "(length (bin (n div 2)) \<le> k) = (n div 2 < 2 ^ k)"
        using "1.IH" [of k] False by simp
      moreover have "(n div 2 < 2 ^ k) = (n < 2 ^ Suc k)" by auto
      ultimately show ?thesis using False m by (simp add: bin_large)
    qed
  qed
qed

lemma length_zero_pad: "length (zero_pad w s) = max w (length s)"
  by (simp add: zero_pad_def)

lemma set_zero_pad: "set (zero_pad w s) \<subseteq> insert CHR ''0'' (set s)"
  by (auto simp: zero_pad_def)

lemma zero_pad_long: "w \<le> length s \<Longrightarrow> zero_pad w s = s"
  by (simp add: zero_pad_def)

lemma bin_4: "bin 4 = ''100''"
  by (simp add: bin_large bin_small)

text \<open>
  Claim C6, as amended.  For every index and every width \<open>m \<ge> 1\<close>, \<^verbatim>\<open>square_func\<close>
  returns the binary digits of the square of the index, padded with zeros on the left to
  length \<open>m\<close> when the square has fewer digits.  Nothing is cut off: the string has the
  length of the longer of \<open>m\<close> and the digits of the square, so when the square needs more
  than \<open>m\<close> bits the result is the unpadded binary representation, longer than \<open>m\<close>.
\<close>

theorem square_func_padded:
  assumes "1 \<le> m"
  shows "set (square_func i m) \<subseteq> {CHR ''0'', CHR ''1''} \<and>
         bin_value (square_func i m) = i ^ 2 \<and>
         length (square_func i m) = max m (length (bin (i ^ 2))) \<and>
         (i ^ 2 < 2 ^ m \<longrightarrow> length (square_func i m) = m) \<and>
         (2 ^ m \<le> i ^ 2 \<longrightarrow> m < length (square_func i m) \<and> square_func i m = bin (i ^ 2))"
proof -
  have len: "(length (bin (i ^ 2)) \<le> m) = (i ^ 2 < 2 ^ m)"
    using assms by (intro length_bin_le) simp
  have "set (square_func i m) \<subseteq> {CHR ''0'', CHR ''1''}"
    using set_zero_pad [of m "bin (i ^ 2)"] set_bin [of "i ^ 2"]
    by (auto simp: square_func_def Let_def)
  moreover have "bin_value (square_func i m) = i ^ 2"
    by (simp add: square_func_def Let_def zero_pad_def bin_value_zeros bin_value_bin)
  moreover have "length (square_func i m) = max m (length (bin (i ^ 2)))"
    by (simp add: square_func_def length_zero_pad)
  moreover have "length (square_func i m) = m" if "i ^ 2 < 2 ^ m"
    using that len by (simp add: square_func_def length_zero_pad)
  moreover have "m < length (square_func i m) \<and> square_func i m = bin (i ^ 2)" if "2 ^ m \<le> i ^ 2"
    using that len by (simp add: square_func_def length_zero_pad zero_pad_long)
  ultimately show ?thesis by blast
qed

theorem square_func_padded_witness:
  "square_func 1 2 = ''01'' \<and> length (square_func 1 2) = 2 \<and>
   bin_value (square_func 1 2) = 1 \<and>
   square_func 2 2 = bin 4 \<and> 2 < length (square_func 2 2)"
  using square_func_padded [of 2 1] square_func_padded [of 2 2]
  by (simp add: square_func_def zero_pad_def bin_small bin_4)

text \<open>
  The claim as stated (a string of length exactly \<open>m\<close>, truncated when needed) fails at
  index 2 and width 2: the square 4 is returned as three digits.
\<close>

theorem square_func_truncation_counterexample:
  "square_func 2 2 = ''100'' \<and> length (square_func 2 2) = 3"
  by (simp add: square_func_def zero_pad_def bin_4)

section \<open>Loops\<close>

lemma for_each_append:
  "for_each body (xs @ ys) s =
     (case for_each body xs s of Inl e \<Rightarrow> Inl e | Inr s' \<Rightarrow> for_each body ys s')"
  by (induction xs arbitrary: s) (auto split: sum.splits)

lemma for_each_map: "for_each body (map f xs) s = for_each (\<lambda>x. body (f x)) xs s"
  by (induction xs arbitrary: s) (auto split: sum.splits)

lemma for_each_product:
  "for_each (\<lambda>x. for_each (g x) ys) xs s = for_each (\<lambda>(x, y). g x y) (List.product xs ys) s"
  by (induction xs arbitrary: s) (auto simp: for_each_append for_each_map split: sum.splits)

lemma for_each_indexed:
  assumes "I 0 s"
    and "\<And>k s. k < length xs \<Longrightarrow> I k s \<Longrightarrow> \<exists>s'. body (xs ! k) s = Inr s' \<and> I (Suc k) s'"
  shows "\<exists>s'. for_each body xs s = Inr s' \<and> I (length xs) s'"
  using assms
proof (induction xs arbitrary: I s)
  case Nil
  then show ?case by simp
next
  case (Cons x xs)
  obtain s1 where s1: "body x s = Inr s1" "I (Suc 0) s1"
    using Cons.prems(2) [of 0 s] Cons.prems(1) by auto
  have "\<exists>s'. for_each body xs s1 = Inr s' \<and> I (Suc (length xs)) s'"
  proof (rule Cons.IH [where I = "\<lambda>k. I (Suc k)"])
    show "I (Suc 0) s1" by (rule s1)
    show "\<exists>s'. body (xs ! k) s = Inr s' \<and> I (Suc (Suc k)) s'"
      if "k < length xs" "I (Suc k) s" for k s
      using Cons.prems(2) [of "Suc k" s] that by simp
  qed
  then show ?case using s1 by simp
qed

lemma fold_indexed:
  assumes "I 0 s"
    and "\<And>k s. k < length xs \<Longrightarrow> I k s \<Longrightarrow> I (Suc k) (f (xs ! k) s)"
  shows "I (length xs) (fold f xs s)"
  using assms
proof (induction xs arbitrary: I s)
  case Nil
  then show ?case by simp
next
  case (Cons x xs)
  have "I (Suc 0) (f x s)" using Cons.prems(2) [of 0 s] Cons.prems(1) by simp
  moreover have "I (Suc (Suc k)) (f (xs ! k) s)" if "k < length xs" "I (Suc k) s" for k s
    using Cons.prems(2) [of "Suc k" s] that by simp
  ultimately have "I (Suc (length xs)) (fold f xs (f x s))"
    by (rule Cons.IH [where I = "\<lambda>k. I (Suc k)"])
  then show ?case by simp
qed

section \<open>Ranges and rounding\<close>

lemma py_round_half: "py_round (of_nat w - 1 / 2) = (if even w then int w else int w - 1)"
proof -
  have f: "\<lfloor>(of_nat w :: rat) - 1 / 2\<rfloor> = int w - 1"
    by (rule floor_unique) simp_all
  show ?thesis
    by (simp add: py_round_def Let_def f)
qed

lemma length_range1: "length (range1 n) = nat n"
  by (simp add: range1_def)

lemma nth_range1: "int k < n \<Longrightarrow> range1 n ! k = int k"
  by (simp add: range1_def)

lemma length_range_up: "length (range_up a b) = nat (b - a)"
  by (simp add: range_up_def)

lemma nth_range_up: "a + int k < b \<Longrightarrow> range_up a b ! k = a + int k"
  by (simp add: range_up_def)

lemma length_range_down: "length (range_down a b) = nat (a - b)"
  by (simp add: range_down_def)

lemma nth_range_down: "b < a - int k \<Longrightarrow> range_down a b ! k = a - int k"
  by (simp add: range_down_def rev_nth nat_diff_distrib)

section \<open>Lookups of a circuit built through the class\<close>

lemma index_ok_lookup:
  assumes ok: "index_ok c" and s: "s < length (logic_gates c)"
    and first: "\<And>j. j < s \<Longrightarrow> position (logic_gates c ! j) \<noteq> position (logic_gates c ! s)"
  shows "get_block c (position (logic_gates c ! s)) = Some s"
proof -
  obtain i where i: "get_block c (position (logic_gates c ! s)) = Some i"
    using index_ok_occupied [OF ok s] by auto
  from index_ok_slot [OF ok i]
  have p: "position (logic_gates c ! i) = position (logic_gates c ! s)"
    and least: "\<forall>j<i. position (logic_gates c ! j) \<noteq> position (logic_gates c ! s)"
    by simp_all
  have "\<not> i < s" using first [of i] p by auto
  moreover have "\<not> s < i" using least by auto
  ultimately show ?thesis using i by simp
qed

lemma index_ok_lookup_None:
  assumes ok: "index_ok c"
    and free: "\<And>s. s < length (logic_gates c) \<Longrightarrow> position (logic_gates c ! s) \<noteq> p"
  shows "get_block c p = None"
proof (cases "get_block c p")
  case None
  then show ?thesis .
next
  case (Some i)
  from index_ok_slot [OF ok Some] free [of i] show ?thesis by simp
qed

section \<open>Connection targets\<close>

lemma targets_ok_Circuit_init: "targets_ok Circuit_init"
  by (simp add: targets_ok_def)

lemma targets_ok_add_logic:
  assumes "targets_ok c" and "\<forall>t \<in> set (connections g). t \<le> length (logic_gates c)"
  shows "targets_ok (add_logic c g)"
  using assms unfolding targets_ok_def by (auto simp: less_Suc_eq)

lemma targets_ok_add_conn:
  assumes "targets_ok c" and "j < length (logic_gates c)"
  shows "targets_ok (add_conn (i, j) c)"
proof -
  have "\<forall>t \<in> set (connections g). t < length (logic_gates c)"
    if "g \<in> set ((logic_gates c)[i := connect_to (logic_gates c ! i) j])" for g
  proof (cases "i < length (logic_gates c)")
    case True
    then have "g = connect_to (logic_gates c ! i) j \<or> g \<in> set (logic_gates c)"
      using that set_update_subset_insert [of "logic_gates c" i] by auto
    then show ?thesis
    proof
      assume "g = connect_to (logic_gates c ! i) j"
      moreover have "logic_gates c ! i \<in> set (logic_gates c)" using True by simp
      ultimately show ?thesis
        using assms unfolding targets_ok_def by (auto simp: connect_to_def)
    next
      assume "g \<in> set (logic_gates c)"
      then show ?thesis using assms unfolding targets_ok_def by blast
    qed
  next
    case False
    then have "(logic_gates c)[i := connect_to (logic_gates c ! i) j] = logic_gates c"
      by (simp add: not_less list_update_beyond)
    then show ?thesis using that assms unfolding targets_ok_def by auto
  qed
  then show ?thesis
    unfolding targets_ok_def by (simp add: add_conn_def)
qed

lemma targets_ok_fold_add_conn:
  assumes "targets_ok c" and "\<forall>ij \<in> set ps. snd ij < length (logic_gates c)"
  shows "targets_ok (fold add_conn ps c)"
  using assms
proof (induction ps arbitrary: c)
  case Nil
  then show ?case by simp
next
  case (Cons ij ps)
  obtain i j where ij: "ij = (i, j)" by (cases ij)
  have "targets_ok (add_conn (i, j) c)"
    using Cons.prems ij by (intro targets_ok_add_conn) auto
  then show ?case using Cons.IH [of "add_conn ij c"] Cons.prems ij by simp
qed

lemma slot_pairs_snd:
  assumes "slots_ok c" and "ij \<in> set (slot_pairs (get_block c) ps)"
  shows "snd ij < length (logic_gates c)"
  using assms(2)
proof (induction ps)
  case Nil
  then show ?case by (simp add: slot_pairs_Nil)
next
  case (Cons p ps)
  obtain a b where p: "p = (a, b)" by (cases p)
  let ?hd = "case get_block c a of None \<Rightarrow> []
             | Some i \<Rightarrow> (case get_block c b of None \<Rightarrow> [] | Some j \<Rightarrow> [(i, j)])"
  have "ij \<in> set ?hd \<or> ij \<in> set (slot_pairs (get_block c) ps)"
    using Cons.prems by (simp add: p slot_pairs_Cons)
  then show ?case
  proof
    assume "ij \<in> set ?hd"
    then have "get_block c b = Some (snd ij)" by (auto split: option.splits)
    then show ?thesis by (rule slots_okD [OF assms(1)])
  next
    assume "ij \<in> set (slot_pairs (get_block c) ps)"
    then show ?thesis by (rule Cons.IH)
  qed
qed

lemma targets_ok_wire_gates:
  assumes "index_ok c" and "targets_ok c" and "wire_gates c ins outs = Inr c'"
  shows "index_ok c' \<and> targets_ok c'"
proof -
  have ok: "slots_ok c" using assms(1) by (rule index_ok_slots_ok)
  have c': "c' = fold add_conn (slot_pairs (get_block c) (arity_pairs ins outs)) c"
    using ok assms(3) by (rule wire_gates_Inr_closed_form)
  have "targets_ok c'"
    unfolding c' using assms(2) slot_pairs_snd [OF ok]
    by (intro targets_ok_fold_add_conn) auto
  then show ?thesis using assms(1) c' by (simp add: index_ok_fold_add_conn)
qed

section \<open>The grid of decode gates\<close>

lemma grid_facts:
  assumes "2 \<le> w"
  shows "py_round (of_nat w - 1 / 2) \<noteq> 0" and "1 \<le> grid_split w" and "1 \<le> grid_rows w"
    and "grid_cells w \<le> 2 ^ w"
proof -
  let ?r = "py_round (of_nat w - 1 / 2)"
  have r: "2 \<le> ?r" "?r \<le> int w"
    using assms by (auto simp: py_round_half elim: oddE)
  then show "?r \<noteq> 0" by simp
  have "w < 2 ^ w" by (rule less_exp)
  then have "int w < 2 ^ w" by (metis of_nat_less_iff of_nat_numeral of_nat_power)
  then have rn: "?r \<le> 2 ^ w" using r by linarith
  have "0 < (2::int) ^ w div ?r"
    using r rn by (simp add: pos_imp_zdiv_pos_iff)
  then show s: "1 \<le> grid_split w" by (simp add: grid_split_def)
  have "grid_split w \<le> 2 ^ w"
    unfolding grid_split_def using r zdiv_mono2 [of "2 ^ w" 1 ?r] by simp
  then have "0 < (2::int) ^ w div grid_split w"
    using s by (simp add: pos_imp_zdiv_pos_iff)
  then show t: "1 \<le> grid_rows w" by (simp add: grid_rows_def)
  have "grid_split w * (2 ^ w div grid_split w) + 2 ^ w mod grid_split w = 2 ^ w"
    by simp
  moreover have "0 \<le> (2::int) ^ w mod grid_split w"
    using s by simp
  ultimately have "grid_split w * (2 ^ w div grid_split w) \<le> 2 ^ w"
    by linarith
  then have "nat (grid_split w * grid_rows w) \<le> nat (2 ^ w)"
    unfolding grid_rows_def by (intro nat_mono)
  then show "grid_cells w \<le> 2 ^ w" by (simp add: grid_cells_def nat_power_eq)
qed

section \<open>Gates of the builders\<close>

lemma LogicGate_init_and:
  "LogicGate_init p ''and'' col = \<lparr>position = p, mode = 0, color = col, connections = []\<rparr>"
  by (simp add: LogicGate_init_def mode_table_def lower_char_def)

lemma LogicGate_init_nor:
  "LogicGate_init p ''nor'' col = \<lparr>position = p, mode = 4, color = col, connections = []\<rparr>"
  by (simp add: LogicGate_init_def mode_table_def lower_char_def)

lemma LogicGate_init_or:
  "LogicGate_init p ''or'' col = \<lparr>position = p, mode = 1, color = col, connections = []\<rparr>"
  by (simp add: LogicGate_init_def mode_table_def lower_char_def)

lemma position_decoder_gate:
  "position (decoder_gate w k s) =
     (if s < 3 * w then (int (s mod 3), int (s div 3), 0) else decoder_cell_pos w (s - 3 * w))"
  by (simp add: decoder_gate_def)

lemma decoder_gate_line: "s < 3 * w \<Longrightarrow> s mod 3 = 0 \<Longrightarrow>
  decoder_gate w k s = \<lparr>position = (0, int (s div 3), 0), mode = 0, color = ''eeee22'',
     connections = [s + 1, s + 2]\<rparr>"
  by (simp add: decoder_gate_def)

lemma div_mod_3:
  "(3 * y) mod 3 = (0::nat)" "(3 * y) div 3 = (y::nat)"
  "Suc (3 * y) mod 3 = 1" "Suc (3 * y) div 3 = y"
  "Suc (Suc (3 * y)) mod 3 = 2" "Suc (Suc (3 * y)) div 3 = y"
  by presburger+

lemma upt_3: "[0..<3 * y + 3] = [0..<3 * y] @ [3 * y, 3 * y + 1, 3 * y + 2]"
  by (simp add: numeral_3_eq_3)

section \<open>The first loop of the decoder\<close>

lemma decoder_line_step:
  assumes ok: "index_ok c" and gs: "logic_gates c = map (decoder_gate w 0) [0..<3 * y]"
    and y: "y < w"
  shows "\<exists>c'. decoder_line (int y) c = Inr c' \<and> index_ok c' \<and>
           logic_gates c' = map (decoder_gate w 0) [0..<3 * Suc y]"
proof -
  let ?g0 = "LogicGate_init (0, int y, 0) ''and'' ''eeee22''"
  let ?g1 = "LogicGate_init (1, int y, 0) ''and'' ''222222''"
  let ?g2 = "LogicGate_init (2, int y, 0) ''nor'' ''222222''"
  let ?F = "decoder_gate w 0"
  define c3 where "c3 = add_logic (add_logic (add_logic c ?g0) ?g1) ?g2"
  have ok3: "index_ok c3" unfolding c3_def using ok by (intro index_ok_add_logic)
  have gs3: "logic_gates c3 = map ?F [0..<3 * y] @ [?g0, ?g1, ?g2]"
    unfolding c3_def using gs by simp
  have old: "position (logic_gates c3 ! j) = (int (j mod 3), int (j div 3), 0)"
    if "j < 3 * y" for j
    using that y by (simp add: gs3 nth_append position_decoder_gate)
  have new: "logic_gates c3 ! (3 * y) = ?g0" "logic_gates c3 ! (3 * y + 1) = ?g1"
    "logic_gates c3 ! (3 * y + 2) = ?g2"
    "logic_gates c3 ! Suc (3 * y) = ?g1" "logic_gates c3 ! Suc (Suc (3 * y)) = ?g2"
    by (simp_all add: gs3 nth_append)
  have l0: "get_block c3 (0, int y, 0) = Some (3 * y)"
  proof -
    have "get_block c3 (position (logic_gates c3 ! (3 * y))) = Some (3 * y)"
    proof (rule index_ok_lookup [OF ok3])
      show "3 * y < length (logic_gates c3)" by (simp add: gs3)
      show "position (logic_gates c3 ! j) \<noteq> position (logic_gates c3 ! (3 * y))"
        if "j < 3 * y" for j
        using that old [OF that] by (auto simp: new)
    qed
    then show ?thesis by (simp add: new)
  qed
  have l1: "get_block c3 (1, int y, 0) = Some (3 * y + 1)"
  proof -
    have "get_block c3 (position (logic_gates c3 ! (3 * y + 1))) = Some (3 * y + 1)"
    proof (rule index_ok_lookup [OF ok3])
      show "3 * y + 1 < length (logic_gates c3)" by (simp add: gs3)
      show "position (logic_gates c3 ! j) \<noteq> position (logic_gates c3 ! (3 * y + 1))"
        if "j < 3 * y + 1" for j
      proof (cases "j < 3 * y")
        case True
        then show ?thesis using old [OF True] by (auto simp: new)
      next
        case False
        then have "j = 3 * y" using that by simp
        then show ?thesis by (simp add: new)
      qed
    qed
    then show ?thesis by (simp add: new)
  qed
  have l2: "get_block c3 (2, int y, 0) = Some (3 * y + 2)"
  proof -
    have "get_block c3 (position (logic_gates c3 ! (3 * y + 2))) = Some (3 * y + 2)"
    proof (rule index_ok_lookup [OF ok3])
      show "3 * y + 2 < length (logic_gates c3)" by (simp add: gs3)
      show "position (logic_gates c3 ! j) \<noteq> position (logic_gates c3 ! (3 * y + 2))"
        if "j < 3 * y + 2" for j
      proof (cases "j < 3 * y")
        case True
        then show ?thesis using old [OF True] by (auto simp: new)
      next
        case False
        then have "j = 3 * y \<or> j = 3 * y + 1" using that by auto
        then show ?thesis by (auto simp: new)
      qed
    qed
    then show ?thesis by (simp add: new)
  qed
  let ?ps = "[(3 * y, 3 * y + 1), (3 * y, 3 * y + 2)]"
  have sp: "slot_pairs (get_block c3)
              (arity_pairs [(0, int y, 0)] [(1, int y, 0), (2, int y, 0)]) = ?ps"
    by (simp add: arity_pairs_def slot_pairs_Cons slot_pairs_Nil l0 l1 l2)
  have w: "wire_gates c3 [(0, int y, 0)] [(1, int y, 0), (2, int y, 0)] =
      Inr (fold add_conn ?ps c3)"
    using wire_gates_closed_form [OF index_ok_slots_ok [OF ok3],
        of "[(0, int y, 0)]" "[(1, int y, 0), (2, int y, 0)]"]
    by (simp add: arity_mismatch_def sp)
  have "logic_gates (fold add_conn ?ps c3) =
      map ?F [0..<3 * y] @ [?g0\<lparr>connections := [3 * y + 1, 3 * y + 2]\<rparr>, ?g1, ?g2]"
    by (simp add: add_conn_def connect_to_def gs3 list_update_append nth_append)
  also have "\<dots> = map ?F [0..<3 * Suc y]"
  proof -
    have "3 * Suc y = 3 * y + 3" by simp
    moreover have "?F (3 * y) = ?g0\<lparr>connections := [3 * y + 1, 3 * y + 2]\<rparr>"
      using y by (simp add: decoder_gate_def LogicGate_init_and)
    moreover have "?F (3 * y + 1) = ?g1"
      using y by (simp add: decoder_gate_def LogicGate_init_and)
    moreover have "?F (3 * y + 2) = ?g2"
      using y by (simp add: decoder_gate_def LogicGate_init_nor div_mod_3)
    ultimately show ?thesis by (simp only: upt_3 map_append list.map)
  qed
  finally have "logic_gates (fold add_conn ?ps c3) = map ?F [0..<3 * Suc y]" .
  moreover have "index_ok (fold add_conn ?ps c3)"
    using ok3 by (rule index_ok_fold_add_conn)
  moreover have "decoder_line (int y) c = wire_gates c3 [(0, int y, 0)] [(1, int y, 0), (2, int y, 0)]"
    by (simp add: decoder_line_def Let_def c3_def)
  ultimately show ?thesis
    using w by simp
qed

lemma decoder_lines:
  "\<exists>c. for_each decoder_line (range1 (int w)) Circuit_init = Inr c \<and> index_ok c \<and>
       logic_gates c = map (decoder_gate w 0) [0..<3 * w]"
proof -
  let ?I = "\<lambda>y c. index_ok c \<and> logic_gates c = map (decoder_gate w 0) [0..<3 * y]"
  have "\<exists>c. for_each decoder_line (range1 (int w)) Circuit_init = Inr c \<and>
          ?I (length (range1 (int w))) c"
  proof (rule for_each_indexed)
    show "?I 0 Circuit_init" by (simp add: index_ok_Circuit_init)
    show "\<exists>c'. decoder_line (range1 (int w) ! y) c = Inr c' \<and> ?I (Suc y) c'"
      if "y < length (range1 (int w))" "?I y c" for y c
    proof -
      have y: "y < w" using that(1) by (simp add: length_range1)
      then have "range1 (int w) ! y = int y" by (simp add: nth_range1)
      then show ?thesis using decoder_line_step [of c w y] that(2) y by simp
    qed
  qed
  then show ?thesis by (simp add: length_range1)
qed

section \<open>The digits of an address\<close>

lemma zero_pad_snoc: "zero_pad (Suc w) (s @ [ch]) = zero_pad w s @ [ch]"
  by (simp add: zero_pad_def)

lemma zero_pad_bin:
  "0 < w \<Longrightarrow> k < 2 ^ w \<Longrightarrow>
   zero_pad w (bin k) =
     map (\<lambda>off. if bit k (w - 1 - off) then CHR ''1'' else CHR ''0'') [0..<w]"
proof (induction w arbitrary: k)
  case 0
  then show ?case by simp
next
  case (Suc w)
  show ?case
  proof (cases "w = 0")
    case True
    then have "k < 2" using Suc.prems by simp
    then have "k = 0 \<or> k = 1" by auto
    then show ?thesis using True by (auto simp: bin_small zero_pad_def bit_0)
  next
    case w: False
    have last: "(if bit k 0 then CHR ''1'' else CHR ''0'') =
        (if k mod 2 = 0 then CHR ''0'' else CHR ''1'')"
      by (simp add: bit_0 odd_iff_mod_2_eq_one)
    have shift: "bit k (Suc w - 1 - off) = bit (k div 2) (w - 1 - off)" if "off < w" for off
    proof -
      have "Suc w - 1 - off = Suc (w - 1 - off)" using that by simp
      then show ?thesis by (simp add: bit_Suc)
    qed
    have split: "map (\<lambda>off. if bit k (Suc w - 1 - off) then CHR ''1'' else CHR ''0'') [0..<Suc w] =
        map (\<lambda>off. if bit (k div 2) (w - 1 - off) then CHR ''1'' else CHR ''0'') [0..<w] @
        [if k mod 2 = 0 then CHR ''0'' else CHR ''1'']"
      using shift last by simp
    show ?thesis
    proof (cases "k < 2")
      case True
      then have k2: "k div 2 = 0" by simp
      have "zero_pad (Suc w) (bin k) = replicate w CHR ''0'' @ [if k = 0 then CHR ''0'' else CHR ''1'']"
        using True by (simp add: bin_small zero_pad_def)
      moreover have "map (\<lambda>off. if bit (0::nat) (w - 1 - off) then CHR ''1'' else CHR ''0'') [0..<w] =
          replicate w CHR ''0''"
        by (simp add: map_replicate_const)
      moreover have "(k = 0) = (k mod 2 = 0)" using True by auto
      ultimately show ?thesis by (simp only: split k2)
    next
      case False
      have "k div 2 < 2 ^ w" using Suc.prems by auto
      then have "zero_pad w (bin (k div 2)) =
          map (\<lambda>off. if bit (k div 2) (w - 1 - off) then CHR ''1'' else CHR ''0'') [0..<w]"
        using w by (intro Suc.IH) simp_all
      then show ?thesis using False by (simp only: split bin_large zero_pad_snoc not_less)
    qed
  qed
qed

lemma int_of_digit_simps [simp]:
  "int_of_digit CHR ''0'' = 0" "int_of_digit CHR ''1'' = 1"
  by (simp_all add: int_of_digit_def)

lemma decoder_inputs:
  assumes "0 < w" and "k < 2 ^ w"
  shows "map (\<lambda>(off, ch). (1 + int_of_digit ch, int w - int off - 1, 0))
           (enumerate 0 (zero_pad w (bin k))) =
         map (\<lambda>off. (if bit k (w - 1 - off) then 2 else 1, int (w - 1 - off), 0)) [0..<w]"
proof -
  have "enumerate 0 (zero_pad w (bin k)) =
      map (\<lambda>off. (off, if bit k (w - 1 - off) then CHR ''1'' else CHR ''0'')) [0..<w]"
    by (simp only: zero_pad_bin [OF assms] enumerate_map_upt)
  then show ?thesis by (auto simp: of_nat_diff)
qed

section \<open>Coordinates of the decoder's gates\<close>

lemma decoder_cell_pos_nat:
  assumes "1 \<le> grid_rows w"
  shows "decoder_cell_pos w k =
     (grid_split w + 2 - int (k div nat (grid_rows w)), int (k mod nat (grid_rows w)), 0)"
proof -
  have "grid_rows w = int (nat (grid_rows w))" using assms by simp
  then have "int k div grid_rows w = int (k div nat (grid_rows w))"
    and "int k mod grid_rows w = int (k mod nat (grid_rows w))"
    by (metis zdiv_int, metis zmod_int)
  then show ?thesis by (simp add: decoder_cell_pos_def)
qed

lemma grid_cells_nat:
  assumes "2 \<le> w"
  shows "grid_cells w = nat (grid_split w) * nat (grid_rows w)" and "0 < nat (grid_rows w)"
    and "0 < nat (grid_split w)"
  using grid_facts [OF assms] by (simp_all add: grid_cells_def nat_mult_distrib)

lemma decoder_position_inj:
  assumes w: "2 \<le> w" and s: "s < 3 * w + grid_cells w" and t: "t < 3 * w + grid_cells w"
    and eq: "position (decoder_gate w k s) = position (decoder_gate w k' t)"
  shows "s = t"
proof -
  let ?R = "nat (grid_rows w)" and ?S = "nat (grid_split w)"
  note g = grid_cells_nat [OF w]
  have rows: "1 \<le> grid_rows w" using grid_facts [OF w] by simp
  have col: "3 \<le> grid_split w + 2 - int (i div ?R)" if "i < grid_cells w" for i
  proof -
    have "i div ?R < ?S" using that g by (simp add: div_less_iff_less_mult)
    then show ?thesis by linarith
  qed
  consider (ll) "s < 3 * w" "t < 3 * w" | (lc) "s < 3 * w" "\<not> t < 3 * w"
    | (cl) "\<not> s < 3 * w" "t < 3 * w" | (cc) "\<not> s < 3 * w" "\<not> t < 3 * w"
    by blast
  then show ?thesis
  proof cases
    case ll
    then have "s mod 3 = t mod 3" "s div 3 = t div 3"
      using eq by (simp_all add: position_decoder_gate)
    then show ?thesis by (metis div_mult_mod_eq)
  next
    case lc
    then have "int (s mod 3) = grid_split w + 2 - int ((t - 3 * w) div ?R)"
      using eq by (simp add: position_decoder_gate decoder_cell_pos_nat [OF rows])
    moreover have "3 \<le> grid_split w + 2 - int ((t - 3 * w) div ?R)"
      using t lc by (intro col) simp
    moreover have "s mod 3 < 3" by simp
    ultimately show ?thesis by linarith
  next
    case cl
    then have "int (t mod 3) = grid_split w + 2 - int ((s - 3 * w) div ?R)"
      using eq by (simp add: position_decoder_gate decoder_cell_pos_nat [OF rows])
    moreover have "3 \<le> grid_split w + 2 - int ((s - 3 * w) div ?R)"
      using s cl by (intro col) simp
    moreover have "t mod 3 < 3" by simp
    ultimately show ?thesis by linarith
  next
    case cc
    then have "(s - 3 * w) div ?R = (t - 3 * w) div ?R" "(s - 3 * w) mod ?R = (t - 3 * w) mod ?R"
      using eq by (simp_all add: position_decoder_gate decoder_cell_pos_nat [OF rows])
    then have "s - 3 * w = t - 3 * w" by (metis div_mult_mod_eq)
    then show ?thesis using cc by simp
  qed
qed

section \<open>The connections one decode gate adds\<close>

lemma filter_upt_single:
  "filter (\<lambda>x. x = a \<and> Q) [0..<n] = (if a < n \<and> Q then [a] else [])"
  by (induction n) auto

lemma decoder_new_targets:
  assumes s: "s < 3 * w"
  shows "map snd (filter (\<lambda>ij. fst ij = s)
           (map (\<lambda>off. (3 * (w - 1 - off) + (if bit k (w - 1 - off) then 2 else 1), t)) [0..<w]))
         = (if s mod 3 \<noteq> 0 \<and> bit k (s div 3) = (s mod 3 = 2) then [t] else [])"
proof -
  let ?h = "\<lambda>off. 3 * (w - 1 - off) + (if bit k (w - 1 - off) then 2 else (1::nat))"
  let ?Q = "s mod 3 \<noteq> 0 \<and> bit k (s div 3) = (s mod 3 = 2)"
  have y: "s div 3 < w" using s by simp
  have "filter (\<lambda>off. ?h off = s) [0..<w] = filter (\<lambda>off. off = w - 1 - s div 3 \<and> ?Q) [0..<w]"
  proof (rule filter_cong [OF refl])
    fix off assume "off \<in> set [0..<w]"
    then have off: "off < w" by simp
    have iff: "(3 * y + b = s) = (y = s div 3 \<and> b = s mod 3)" if "b = 1 \<or> b = 2" for y b :: nat
      using that by presburger
    have "(?h off = s) = (w - 1 - off = s div 3 \<and> (if bit k (w - 1 - off) then 2 else 1) = s mod 3)"
      by (rule iff) simp
    also have "\<dots> = (off = w - 1 - s div 3 \<and> ?Q)"
      using off y by (cases "bit k (s div 3)") auto
    finally show "(?h off = s) = (off = w - 1 - s div 3 \<and> ?Q)" .
  qed
  also have "\<dots> = (if ?Q then [w - 1 - s div 3] else [])"
    using y by (simp add: filter_upt_single)
  finally have "filter (\<lambda>off. ?h off = s) [0..<w] = (if ?Q then [w - 1 - s div 3] else [])" .
  then show ?thesis
    by (simp add: filter_map comp_def)
qed

lemma decoder_new_targets_cell:
  assumes s: "3 * w \<le> s"
  shows "map snd (filter (\<lambda>ij. fst ij = s)
           (map (\<lambda>off. (3 * (w - 1 - off) + (if bit k (w - 1 - off) then 2 else 1), t)) [0..<w]))
         = []"
proof -
  have "3 * (w - 1 - off) + (if bit k (w - 1 - off) then 2 else 1) \<noteq> s" if "off < w" for off
    using that s by (auto split: if_splits)
  then show ?thesis by (simp add: filter_map comp_def)
qed

lemma slot_pairs_map_Some:
  assumes "\<And>x. x \<in> set xs \<Longrightarrow> G (fa x) = Some (sa x) \<and> G (fb x) = Some (sb x)"
  shows "slot_pairs G (map (\<lambda>x. (fa x, fb x)) xs) = map (\<lambda>x. (sa x, sb x)) xs"
  using assms by (induction xs) (simp_all add: slot_pairs_Nil slot_pairs_Cons)

lemma decoder_lookup:
  assumes w: "2 \<le> w" and ok: "index_ok c"
    and len: "length (logic_gates c) \<le> 3 * w + grid_cells w"
    and pos: "\<And>j. j < length (logic_gates c) \<Longrightarrow>
        position (logic_gates c ! j) = position (decoder_gate w 0 j)"
    and s: "s < length (logic_gates c)"
  shows "get_block c (position (decoder_gate w 0 s)) = Some s"
proof -
  have "get_block c (position (logic_gates c ! s)) = Some s"
  proof (rule index_ok_lookup [OF ok s])
    fix j assume j: "j < s"
    then have "j < 3 * w + grid_cells w" "s < 3 * w + grid_cells w" using s len by simp_all
    from decoder_position_inj [OF w this, of 0 0] j
    have "position (decoder_gate w 0 j) \<noteq> position (decoder_gate w 0 s)" by auto
    then show "position (logic_gates c ! j) \<noteq> position (logic_gates c ! s)"
      using pos [of j] pos [of s] j s by simp
  qed
  then show ?thesis using pos [OF s] by simp
qed

lemma position_line_gate:
  assumes "y < w" and "b = 1 \<or> b = 2"
  shows "position (decoder_gate w k (3 * y + b)) = (int b, int y, 0)"
proof -
  have "3 * y + b < 3 * w" "(3 * y + b) mod 3 = b" "(3 * y + b) div 3 = y"
    using assms by auto
  then show ?thesis by (simp add: position_decoder_gate)
qed

section \<open>One decode gate\<close>

lemma decoder_cell_step:
  assumes w: "2 \<le> w" and k: "k < grid_cells w" and ok: "index_ok c"
    and gs: "logic_gates c = map (decoder_gate w k) [0..<3 * w + k]"
    and p: "(ox, oy, 0) = decoder_cell_pos w k"
  shows "\<exists>c'. decoder_cell w ox oy (c, k) = Inr (c', Suc k) \<and> index_ok c' \<and>
           logic_gates c' = map (decoder_gate w (Suc k)) [0..<3 * w + Suc k]"
proof -
  let ?g = "LogicGate_init (ox, oy, 0) ''and'' ''222222''"
  let ?out = "(ox, oy, 0)"
  let ?ins = "map (\<lambda>off. (if bit k (w - 1 - off) then 2 else 1, int (w - 1 - off), 0)) [0..<w]"
  let ?ps = "map (\<lambda>off. (3 * (w - 1 - off) + (if bit k (w - 1 - off) then 2 else 1), 3 * w + k))
               [0..<w]"
  define c1 where "c1 = add_logic c ?g"
  have ok1: "index_ok c1" unfolding c1_def using ok by (rule index_ok_add_logic)
  have gs1: "logic_gates c1 = map (decoder_gate w k) [0..<3 * w + k] @ [?g]"
    unfolding c1_def using gs by simp
  have len1: "length (logic_gates c1) = 3 * w + k + 1" by (simp add: gs1)
  have pos1: "position (logic_gates c1 ! j) = position (decoder_gate w 0 j)"
    if "j < length (logic_gates c1)" for j
  proof (cases "j < 3 * w + k")
    case True
    then show ?thesis by (simp add: gs1 nth_append position_decoder_gate)
  next
    case False
    then have "j = 3 * w + k" using that len1 by simp
    then show ?thesis using p by (simp add: gs1 nth_append position_decoder_gate)
  qed
  have look: "get_block c1 (position (decoder_gate w 0 s)) = Some s"
    if "s < 3 * w + k + 1" for s
    using w ok1 _ pos1
  proof (rule decoder_lookup)
    show "length (logic_gates c1) \<le> 3 * w + grid_cells w" using k len1 by simp
    show "s < length (logic_gates c1)" using that len1 by simp
  qed
  have kn: "k < 2 ^ w" using k grid_facts(4) [OF w] by simp
  have ins: "map (\<lambda>(off, ch). (1 + int_of_digit ch, int w - int off - 1, 0))
               (enumerate 0 (zero_pad w (bin k))) = ?ins"
    using w kn by (intro decoder_inputs) simp_all
  have l_out: "get_block c1 ?out = Some (3 * w + k)"
    using look [of "3 * w + k"] p by (simp add: position_decoder_gate)
  have l_in: "get_block c1 (if bit k (w - 1 - off) then 2 else 1, int (w - 1 - off), 0) =
      Some (3 * (w - 1 - off) + (if bit k (w - 1 - off) then 2 else 1))" if "off < w" for off
  proof -
    let ?y = "w - 1 - off" and ?b = "if bit k (w - 1 - off) then 2 else (1::nat)"
    have y: "?y < w" using that by simp
    have "position (decoder_gate w 0 (3 * ?y + ?b)) = (int ?b, int ?y, 0)"
      using y by (intro position_line_gate) simp_all
    moreover have "3 * ?y + ?b < 3 * w + k + 1" using y by (simp split: if_splits)
    ultimately show ?thesis using look [of "3 * ?y + ?b"] by (simp split: if_splits)
  qed
  have sp: "slot_pairs (get_block c1) (arity_pairs ?ins [?out]) = ?ps"
  proof -
    have "arity_pairs ?ins [?out] =
        map (\<lambda>off. ((if bit k (w - 1 - off) then 2 else 1, int (w - 1 - off), 0), ?out)) [0..<w]"
      using w by (simp add: arity_pairs_def comp_def)
    moreover have "slot_pairs (get_block c1)
        (map (\<lambda>off. ((if bit k (w - 1 - off) then 2 else 1, int (w - 1 - off), 0), ?out)) [0..<w])
        = ?ps"
      using l_in l_out by (intro slot_pairs_map_Some) simp
    ultimately show ?thesis by simp
  qed
  have "\<not> arity_mismatch ?ins [?out]" by (simp add: arity_mismatch_def)
  from wire_gates_closed_form [OF index_ok_slots_ok [OF ok1] this]
  have wire: "wire_gates c1 ?ins [?out] = Inr (fold add_conn ?ps c1)"
    by (simp only: sp)
  define c' where "c' = fold add_conn ?ps c1"
  have ok': "index_ok c'" unfolding c'_def using ok1 by (rule index_ok_fold_add_conn)
  have nth': "logic_gates c' ! s = decoder_gate w (Suc k) s" if s: "s < 3 * w + k + 1" for s
  proof -
    define A where "A = map snd (filter (\<lambda>ij. fst ij = s) ?ps)"
    have upd: "logic_gates c' ! s =
        (logic_gates c1 ! s)\<lparr>connections := connections (logic_gates c1 ! s) @ A\<rparr>"
      unfolding c'_def A_def using s len1 by (intro nth_fold_add_conn) simp
    have A_line: "A = (if s mod 3 \<noteq> 0 \<and> bit k (s div 3) = (s mod 3 = 2) then [3 * w + k] else [])"
      if "s < 3 * w"
      unfolding A_def by (rule decoder_new_targets [OF that])
    have A_cell: "A = []" if "3 * w \<le> s"
      unfolding A_def by (rule decoder_new_targets_cell [OF that])
    consider (line) "s < 3 * w" | (cell) "3 * w \<le> s" "s < 3 * w + k" | (new) "s = 3 * w + k"
      using s by linarith
    then show ?thesis
    proof cases
      case line
      then have "logic_gates c1 ! s = decoder_gate w k s" by (simp add: gs1 nth_append)
      then show ?thesis
        using line by (auto simp: upd A_line decoder_gate_def)
    next
      case cell
      then have "logic_gates c1 ! s = decoder_gate w k s" by (simp add: gs1 nth_append)
      then show ?thesis
        using cell by (simp add: upd A_cell decoder_gate_def)
    next
      case new
      have g1: "logic_gates c1 ! s = ?g" using new by (simp add: gs1 nth_append)
      have a: "A = []" using new by (intro A_cell) simp
      have "logic_gates c' ! s = ?g" by (simp add: upd g1 a)
      moreover have "decoder_gate w (Suc k) s = ?g"
        using new p by (simp add: decoder_gate_def LogicGate_init_and)
      ultimately show ?thesis by simp
    qed
  qed
  have gs': "logic_gates c' = map (decoder_gate w (Suc k)) [0..<3 * w + Suc k]"
  proof (rule nth_equalityI)
    show "length (logic_gates c') = length (map (decoder_gate w (Suc k)) [0..<3 * w + Suc k])"
      by (simp add: c'_def len1)
    show "logic_gates c' ! s = map (decoder_gate w (Suc k)) [0..<3 * w + Suc k] ! s"
      if "s < length (logic_gates c')" for s
    proof -
      have "s < 3 * w + k + 1" using that by (simp add: c'_def len1)
      then show ?thesis using nth' [of s] by (simp del: upt_Suc)
    qed
  qed
  have "decoder_cell w ox oy (c, k) = Inr (c', Suc k)"
    unfolding decoder_cell_def Let_def prod.case c1_def [symmetric] ins wire
      c'_def [symmetric]
    by simp
  then show ?thesis using ok' gs' by blast
qed

section \<open>The decoder\<close>

lemma decoder_grid_nth:
  assumes w: "2 \<le> w" and k: "k < grid_cells w"
  shows "List.product (range_down (grid_split w + 2) 2) (range1 (grid_rows w)) ! k =
     (grid_split w + 2 - int (k div nat (grid_rows w)), int (k mod nat (grid_rows w)))"
proof -
  let ?R = "nat (grid_rows w)" and ?S = "nat (grid_split w)"
  note g = grid_cells_nat [OF w]
  have len: "length (range_down (grid_split w + 2) 2) = ?S" "length (range1 (grid_rows w)) = ?R"
    by (simp_all add: length_range_down length_range1)
  have col: "k div ?R < ?S" using k g by (simp add: div_less_iff_less_mult)
  have row: "k mod ?R < ?R" using g by simp
  have "List.product (range_down (grid_split w + 2) 2) (range1 (grid_rows w)) ! k =
      (range_down (grid_split w + 2) 2 ! (k div ?R), range1 (grid_rows w) ! (k mod ?R))"
    using k g by (simp add: product_nth len)
  moreover have "range_down (grid_split w + 2) 2 ! (k div ?R) = grid_split w + 2 - int (k div ?R)"
    using col by (intro nth_range_down) linarith
  moreover have "range1 (grid_rows w) ! (k mod ?R) = int (k mod ?R)"
    using row by (intro nth_range1) linarith
  ultimately show ?thesis by simp
qed

lemma decoder_cells:
  assumes w: "2 \<le> w" and ok: "index_ok c0"
    and gs: "logic_gates c0 = map (decoder_gate w 0) [0..<3 * w]"
  shows "\<exists>c. for_each (decoder_column w (2 ^ w) (grid_split w))
               (range_down (grid_split w + 2) 2) (c0, 0) = Inr (c, grid_cells w) \<and>
             index_ok c \<and>
             logic_gates c = map (decoder_gate w (grid_cells w)) [0..<3 * w + grid_cells w]"
proof -
  let ?cells = "List.product (range_down (grid_split w + 2) 2) (range1 (grid_rows w))"
  let ?body = "\<lambda>(ox, oy). decoder_cell w ox oy"
  let ?I = "\<lambda>k s. snd s = k \<and> index_ok (fst s) \<and>
              logic_gates (fst s) = map (decoder_gate w k) [0..<3 * w + k]"
  note g = grid_cells_nat [OF w]
  have rows: "1 \<le> grid_rows w" and split: "grid_split w \<noteq> 0"
    using grid_facts [OF w] by simp_all
  have col: "decoder_column w (2 ^ w) (grid_split w) =
      (\<lambda>ox. for_each (decoder_cell w ox) (range1 (grid_rows w)))"
    using split by (intro ext) (simp add: decoder_column_def grid_rows_def)
  have flat: "for_each (decoder_column w (2 ^ w) (grid_split w))
      (range_down (grid_split w + 2) 2) (c0, 0) = for_each ?body ?cells (c0, 0)"
    unfolding col by (rule for_each_product)
  have len: "length ?cells = grid_cells w"
    by (simp add: length_range_down length_range1 g)
  have "\<exists>s'. for_each ?body ?cells (c0, 0) = Inr s' \<and> ?I (length ?cells) s'"
  proof (rule for_each_indexed)
    show "?I 0 (c0, 0)" using ok gs by simp
    show "\<exists>s'. ?body (?cells ! k) s = Inr s' \<and> ?I (Suc k) s'"
      if k: "k < length ?cells" and I: "?I k s" for k s
    proof -
      obtain c where s: "s = (c, k)" using I by (cases s) auto
      have k': "k < grid_cells w" using k len by simp
      let ?ox = "grid_split w + 2 - int (k div nat (grid_rows w))"
      let ?oy = "int (k mod nat (grid_rows w))"
      have nth: "?cells ! k = (?ox, ?oy)" by (rule decoder_grid_nth [OF w k'])
      have "(?ox, ?oy, 0) = decoder_cell_pos w k"
        by (simp add: decoder_cell_pos_nat [OF rows])
      from decoder_cell_step [OF w k' _ _ this, of c] I
      obtain c' where "decoder_cell w ?ox ?oy (c, k) = Inr (c', Suc k)" "index_ok c'"
        "logic_gates c' = map (decoder_gate w (Suc k)) [0..<3 * w + Suc k]"
        unfolding s by auto
      then show ?thesis unfolding nth s by (intro exI [of _ "(c', Suc k)"]) simp
    qed
  qed
  then obtain s' where s': "for_each ?body ?cells (c0, 0) = Inr s'" "?I (grid_cells w) s'"
    unfolding len by blast
  then have "s' = (fst s', grid_cells w)" by (cases s') simp
  then show ?thesis using s' flat by metis
qed

lemma create_decoder_small: "w < 2 \<Longrightarrow> create_decoder w = Inl ZeroDivisionError"
proof -
  assume "w < 2"
  then have r: "py_round (of_nat w - 1 / 2) = 0"
    by (auto simp: py_round_half less_2_cases_iff)
  obtain c where "for_each decoder_line (range1 (int w)) Circuit_init = Inr c"
    using decoder_lines [of w] by blast
  then show ?thesis by (simp add: create_decoder_def Let_def r)
qed

lemma create_decoder_result:
  assumes w: "2 \<le> w"
  shows "\<exists>c. create_decoder w = Inr c \<and> index_ok c \<and>
             logic_gates c = map (decoder_gate w (grid_cells w)) [0..<3 * w + grid_cells w]"
proof -
  obtain c0 where c0: "for_each decoder_line (range1 (int w)) Circuit_init = Inr c0"
      "index_ok c0" "logic_gates c0 = map (decoder_gate w 0) [0..<3 * w]"
    using decoder_lines [of w] by blast
  obtain c where c: "for_each (decoder_column w (2 ^ w) (grid_split w))
        (range_down (grid_split w + 2) 2) (c0, 0) = Inr (c, grid_cells w)"
      "index_ok c"
      "logic_gates c = map (decoder_gate w (grid_cells w)) [0..<3 * w + grid_cells w]"
    using decoder_cells [OF w c0(2,3)] by blast
  have r: "py_round (of_nat w - 1 / 2) \<noteq> 0" by (rule grid_facts(1) [OF w])
  have "create_decoder w = Inr c"
    using r by (simp add: create_decoder_def Let_def c0(1) c(1) grid_split_def [symmetric])
  then show ?thesis using c by blast
qed

lemma grid_6: "grid_split 6 = 10" "grid_rows 6 = 6" "grid_cells 6 = 60"
proof -
  show s: "grid_split 6 = 10" unfolding grid_split_def py_round_half by simp
  show r: "grid_rows 6 = 6" unfolding grid_rows_def s by simp
  show "grid_cells 6 = 60" unfolding grid_cells_def s r by simp
qed

lemma grid_2: "grid_split 2 = 2" "grid_rows 2 = 2" "grid_cells 2 = 4"
proof -
  show s: "grid_split 2 = 2" unfolding grid_split_def py_round_half by simp
  show r: "grid_rows 2 = 2" unfolding grid_rows_def s by simp
  show "grid_cells 2 = 4" unfolding grid_cells_def s r by simp
qed

lemma create_decoder_slots:
  assumes w: "2 \<le> w" and s: "s < 3 * w + grid_cells w"
  shows "slot_of (create_decoder w) (position (decoder_gate w 0 s)) = Some s"
    and "outputs_at (create_decoder w) (position (decoder_gate w 0 s)) =
           Some (connections (decoder_gate w (grid_cells w) s))"
proof -
  obtain c where c: "create_decoder w = Inr c" "index_ok c"
      "logic_gates c = map (decoder_gate w (grid_cells w)) [0..<3 * w + grid_cells w]"
    using create_decoder_result [OF w] by blast
  have len: "length (logic_gates c) = 3 * w + grid_cells w" by (simp add: c(3))
  have "get_block c (position (decoder_gate w 0 s)) = Some s"
    using w c(2)
  proof (rule decoder_lookup)
    show "length (logic_gates c) \<le> 3 * w + grid_cells w" by (simp add: len)
    show "s < length (logic_gates c)" using s by (simp add: len)
    show "position (logic_gates c ! j) = position (decoder_gate w 0 j)"
      if "j < length (logic_gates c)" for j
      using that by (simp add: c(3) position_decoder_gate)
  qed
  then show "slot_of (create_decoder w) (position (decoder_gate w 0 s)) = Some s"
    and "outputs_at (create_decoder w) (position (decoder_gate w 0 s)) =
           Some (connections (decoder_gate w (grid_cells w) s))"
    using s by (simp_all add: slot_of_def outputs_at_def c(1) len) (simp add: c(3))
qed

lemma create_decoder_gate_count:
  "2 \<le> w \<Longrightarrow> gate_count (create_decoder w) = Some (3 * w + grid_cells w)"
  using create_decoder_result [of w] by (auto simp: gate_count_def)

lemma connections_line_gate:
  assumes "y < w" and "b = 1 \<or> b = 2"
  shows "connections (decoder_gate w k (3 * y + b)) =
     map (\<lambda>j. 3 * w + j) (filter (\<lambda>j. bit j y = (b = 2)) [0..<k])"
proof -
  have "3 * y + b < 3 * w" "(3 * y + b) mod 3 = b" "(3 * y + b) div 3 = y"
    using assms by auto
  then show ?thesis using assms(2) by (auto simp: decoder_gate_def)
qed

lemma create_decoder_wired:
  assumes w: "2 \<le> w" and i: "index < grid_cells w" and y: "y < w" and b: "b = 1 \<or> b = 2"
  shows "wired (create_decoder w) (int b, int y, 0) (decoder_cell_pos w index) =
           (bit index y = (b = 2))"
proof -
  let ?r = "create_decoder w"
  have cell: "slot_of ?r (decoder_cell_pos w index) = Some (3 * w + index)"
    using create_decoder_slots(1) [OF w, of "3 * w + index"] i
    by (simp add: position_decoder_gate)
  have s: "3 * y + b < 3 * w + grid_cells w" using y b by auto
  have "outputs_at ?r (int b, int y, 0) =
      Some (map (\<lambda>j. 3 * w + j) (filter (\<lambda>j. bit j y = (b = 2)) [0..<grid_cells w]))"
    using create_decoder_slots(2) [OF w s]
    by (simp add: position_line_gate [OF y b] connections_line_gate [OF y b])
  then show ?thesis using i by (auto simp: wired_def cell)
qed

text \<open>
  Claim C3, as amended.  For every width \<open>w \<ge> 2\<close> and every address \<open>index\<close> whose decode
  gate the grid places, that gate (placed at \<open>decoder_cell_pos w index\<close>, slot
  \<open>3 * w + index\<close>) receives, for each bit position \<open>off\<close> (0 the most significant), a
  wire from the line at \<open>(1 + bit, w - off - 1, 0)\<close>, the bit read from the binary string of
  \<open>index\<close> zero-padded to \<open>w\<close> digits: from the complement line \<open>(2, w - off - 1, 0)\<close>
  when the bit is 1 and from the line \<open>(1, w - off - 1, 0)\<close> when it is 0, and no wire from
  the other line of that bit.
\<close>

theorem create_decoder_wiring:
  assumes "2 \<le> w" and "index < grid_cells w" and "off < w"
  shows "slot_of (create_decoder w) (decoder_cell_pos w index) = Some (3 * w + index) \<and>
         zero_pad w (bin index) ! off =
           (if bit index (w - 1 - off) then CHR ''1'' else CHR ''0'') \<and>
         wired (create_decoder w)
           (if bit index (w - 1 - off) then 2 else 1, int w - int off - 1, 0)
           (decoder_cell_pos w index) \<and>
         \<not> wired (create_decoder w)
           (if bit index (w - 1 - off) then 1 else 2, int w - int off - 1, 0)
           (decoder_cell_pos w index)"
proof -
  let ?y = "w - 1 - off"
  have y: "?y < w" and yi: "int w - int off - 1 = int ?y" using assms(3) by auto
  have kn: "index < 2 ^ w" using assms(2) grid_facts(4) [OF assms(1)] by simp
  have "slot_of (create_decoder w) (decoder_cell_pos w index) = Some (3 * w + index)"
    using create_decoder_slots(1) [OF assms(1), of "3 * w + index"] assms(2)
    by (simp add: position_decoder_gate)
  moreover have "zero_pad w (bin index) ! off =
      (if bit index ?y then CHR ''1'' else CHR ''0'')"
    using assms kn by (simp add: zero_pad_bin)
  moreover have "wired (create_decoder w) (if bit index ?y then 2 else 1, int ?y, 0)
      (decoder_cell_pos w index)"
    using create_decoder_wired [OF assms(1,2) y, of 1]
      create_decoder_wired [OF assms(1,2) y, of 2] by simp
  moreover have "\<not> wired (create_decoder w) (if bit index ?y then 1 else 2, int ?y, 0)
      (decoder_cell_pos w index)"
    using create_decoder_wired [OF assms(1,2) y, of 1]
      create_decoder_wired [OF assms(1,2) y, of 2] by simp
  ultimately show ?thesis unfolding yi by blast
qed

lemma decoder_cell_pos_2_0: "decoder_cell_pos 2 0 = (4, 0, 0)"
  by (simp add: decoder_cell_pos_def grid_2)

theorem create_decoder_wiring_witness:
  "slot_of (create_decoder 2) (4, 0, 0) = Some 6 \<and>
   zero_pad 2 (bin 0) ! 0 = CHR ''0'' \<and>
   wired (create_decoder 2) (1, 1, 0) (4, 0, 0) \<and>
   \<not> wired (create_decoder 2) (2, 1, 0) (4, 0, 0)"
  using create_decoder_wiring [of 2 0 0]
  by (simp add: grid_2 decoder_cell_pos_2_0)

text \<open>
  The claim as stated (the true line \<open>(1, \<dots>)\<close> for a 1 bit, the complement line
  \<open>(2, \<dots>)\<close> for a 0 bit) fails for width 2, address 0 (digits \<^verbatim>\<open>00\<close>), bit position 0:
  the gate of address 0, at \<open>(4, 0, 0)\<close>, is not wired from \<open>(2, 1, 0)\<close> but from
  \<open>(1, 1, 0)\<close>.
\<close>

theorem create_decoder_true_line_counterexample:
  "slot_of (create_decoder 2) (4, 0, 0) = Some 6 \<and>
   zero_pad 2 (bin 0) = ''00'' \<and>
   \<not> wired (create_decoder 2) (2, 2 - 0 - 1, 0) (4, 0, 0) \<and>
   wired (create_decoder 2) (1, 2 - 0 - 1, 0) (4, 0, 0)"
proof -
  have "slot_of (create_decoder 2) (decoder_cell_pos 2 0) = Some (3 * 2 + 0)"
    using create_decoder_slots(1) [of 2 6] by (simp add: grid_2 position_decoder_gate)
  moreover have "zero_pad 2 (bin 0) = ''00''"
    by (simp add: zero_pad_def bin_small)
  moreover have "wired (create_decoder 2) (int 1, int 1, 0) (decoder_cell_pos 2 0) =
      (bit (0::nat) 1 = ((1::nat) = 2))"
    by (rule create_decoder_wired) (simp_all add: grid_2)
  moreover have "wired (create_decoder 2) (int 2, int 1, 0) (decoder_cell_pos 2 0) =
      (bit (0::nat) 1 = ((2::nat) = 2))"
    by (rule create_decoder_wired) (simp_all add: grid_2)
  ultimately show ?thesis by (simp add: decoder_cell_pos_2_0)
qed

text \<open>
  Claim C1 against the code.  For width 1, \<^verbatim>\<open>round(1 - 0.5)\<close> is 0 and the division
  \<^verbatim>\<open>n // 0\<close> raises; for width 6 the grid has \<open>10 * 6 = 60\<close> decode gates, so the decoder
  has 78 gates, not \<open>3 * 6 + 2 ^ 6 = 82\<close>.
\<close>

theorem create_decoder_gate_count_bug:
  "create_decoder 1 = Inl ZeroDivisionError \<and>
   gate_count (create_decoder 6) = Some 78 \<and> 3 * 6 + 2 ^ 6 = (82::nat)"
  using create_decoder_small [of 1] create_decoder_gate_count [of 6]
  by (simp add: grid_6)

section \<open>Coordinates of the lookup table's gates\<close>

lemma lut_gate_decoder:
  "s < 3 * w + grid_cells w \<Longrightarrow> lut_gate w m f 0 s = decoder_gate w (grid_cells w) s"
  by (simp add: lut_gate_def decoder_gate_def)

lemma position_lut_gate:
  "position (lut_gate w m f k s) =
     (if s < 3 * w + grid_cells w then position (decoder_gate w 0 s)
      else (0, int w + int (s - 3 * w - grid_cells w), 0))"
  by (simp add: lut_gate_def position_decoder_gate)

lemma position_decoder_gate_x0:
  assumes w: "2 \<le> w" and s: "s < 3 * w + grid_cells w"
    and p: "position (decoder_gate w 0 s) = (0, y, 0)"
  shows "s < 3 * w \<and> s mod 3 = 0 \<and> y = int (s div 3)"
proof (cases "s < 3 * w")
  case True
  then show ?thesis using p by (simp add: position_decoder_gate)
next
  case False
  let ?R = "nat (grid_rows w)" and ?S = "nat (grid_split w)"
  note g = grid_cells_nat [OF w]
  have rows: "1 \<le> grid_rows w" using grid_facts [OF w] by simp
  have "(s - 3 * w) div ?R < ?S"
    using s False g by (simp add: div_less_iff_less_mult)
  moreover have "grid_split w + 2 - int ((s - 3 * w) div ?R) = 0"
    using p False by (simp add: position_decoder_gate decoder_cell_pos_nat [OF rows])
  ultimately show ?thesis by linarith
qed

lemma lut_position_inj:
  assumes w: "2 \<le> w" and s: "s < 3 * w + grid_cells w + m"
    and t: "t < 3 * w + grid_cells w + m"
    and eq: "position (lut_gate w m f k s) = position (lut_gate w m f k' t)"
  shows "s = t"
proof -
  let ?D = "3 * w + grid_cells w"
  consider (dd) "s < ?D" "t < ?D" | (da) "s < ?D" "\<not> t < ?D" | (ad) "\<not> s < ?D" "t < ?D"
    | (aa) "\<not> s < ?D" "\<not> t < ?D"
    by blast
  then show ?thesis
  proof cases
    case dd
    then show ?thesis
      using eq decoder_position_inj [OF w, of s t 0 0] by (simp add: position_lut_gate)
  next
    case da
    then have "position (decoder_gate w 0 s) = (0, int w + int (t - ?D), 0)"
      using eq by (simp add: position_lut_gate)
    from position_decoder_gate_x0 [OF w da(1) this] da(1) show ?thesis by linarith
  next
    case ad
    then have "position (decoder_gate w 0 t) = (0, int w + int (s - ?D), 0)"
      using eq by (simp add: position_lut_gate)
    from position_decoder_gate_x0 [OF w ad(2) this] ad(2) show ?thesis by linarith
  next
    case aa
    then show ?thesis using eq by (simp add: position_lut_gate)
  qed
qed

lemma lut_lookup:
  assumes w: "2 \<le> w" and ok: "index_ok c"
    and len: "length (logic_gates c) \<le> 3 * w + grid_cells w + m"
    and pos: "\<And>j. j < length (logic_gates c) \<Longrightarrow>
        position (logic_gates c ! j) = position (lut_gate w m f 0 j)"
    and s: "s < length (logic_gates c)"
  shows "get_block c (position (lut_gate w m f 0 s)) = Some s"
proof -
  have "get_block c (position (logic_gates c ! s)) = Some s"
  proof (rule index_ok_lookup [OF ok s])
    fix j assume j: "j < s"
    then have "j < 3 * w + grid_cells w + m" "s < 3 * w + grid_cells w + m"
      using s len by simp_all
    from lut_position_inj [OF w this, of f 0 0] j
    have "position (lut_gate w m f 0 j) \<noteq> position (lut_gate w m f 0 s)" by auto
    then show "position (logic_gates c ! j) \<noteq> position (logic_gates c ! s)"
      using pos [of j] pos [of s] j s by simp
  qed
  then show ?thesis using pos [OF s] by simp
qed

lemma lut_lookup_x0:
  assumes w: "2 \<le> w" and ok: "index_ok c"
    and len: "length (logic_gates c) = 3 * w + grid_cells w + m"
    and pos: "\<And>j. j < length (logic_gates c) \<Longrightarrow>
        position (logic_gates c ! j) = position (lut_gate w m f 0 j)"
  shows "get_block c (0, y, 0) = lut_slot w m y"
proof -
  let ?D = "3 * w + grid_cells w"
  consider (line) "0 \<le> y" "y < int w" | (acc) "int w \<le> y" "y < int w + int m"
    | (out) "y < 0 \<or> int w + int m \<le> y"
    by linarith
  then show ?thesis
  proof cases
    case line
    have "nat y < w" using line by linarith
    then have "position (lut_gate w m f 0 (3 * nat y)) = (0, y, 0)"
      using line by (simp add: position_lut_gate position_decoder_gate)
    moreover have "3 * nat y < length (logic_gates c)" using line len by simp
    ultimately show ?thesis
      using lut_lookup [OF w ok _ pos, of "3 * nat y"] len line by (simp add: lut_slot_def)
  next
    case acc
    have "position (lut_gate w m f 0 (?D + nat (y - int w))) = (0, y, 0)"
      using acc by (simp add: position_lut_gate)
    moreover have "?D + nat (y - int w) < length (logic_gates c)" using acc len by simp
    ultimately show ?thesis
      using lut_lookup [OF w ok _ pos, of "?D + nat (y - int w)"] len acc
      by (simp add: lut_slot_def)
  next
    case out
    have "get_block c (0, y, 0) = None"
    proof (rule index_ok_lookup_None [OF ok])
      fix s assume s: "s < length (logic_gates c)"
      show "position (logic_gates c ! s) \<noteq> (0, y, 0)"
      proof
        assume "position (logic_gates c ! s) = (0, y, 0)"
        then have p: "position (lut_gate w m f 0 s) = (0, y, 0)" using pos [OF s] by simp
        show False
        proof (cases "s < ?D")
          case True
          then have "position (decoder_gate w 0 s) = (0, y, 0)"
            using p by (simp add: position_lut_gate)
          from position_decoder_gate_x0 [OF w True this] out show False by linarith
        next
          case False
          then have "y = int w + int (s - ?D)" using p by (simp add: position_lut_gate)
          then show False using out s len False by linarith
        qed
      qed
    qed
    then show ?thesis using out by (auto simp: lut_slot_def)
  qed
qed

section \<open>Fan-out from one decode gate\<close>

lemma arity_pairs_single: "arity_pairs [a] bs = map (\<lambda>b. (a, b)) bs"
  by (cases bs; cases "tl bs") (auto simp: arity_pairs_def)

lemma slot_pairs_fan_out:
  assumes "G a = Some i"
  shows "slot_pairs G (map (\<lambda>b. (a, b)) bs) =
     map (Pair i) (concat (map (\<lambda>b. case G b of None \<Rightarrow> [] | Some t \<Rightarrow> [t]) bs))"
  using assms by (induction bs) (auto simp: slot_pairs_Nil slot_pairs_Cons split: option.splits)

lemma fan_out_targets:
  "map snd (filter (\<lambda>ij. fst ij = s) (map (Pair i) ts)) = (if s = i then ts else [])"
  by (induction ts) auto

section \<open>The two traversals of the grid\<close>

lemma div_mod_unique:
  fixes a b c R :: nat
  assumes "a = b * R + c" and "c < R"
  shows "a div R = b" and "a mod R = c"
  using assms by simp_all

lemma lut_cell_pos_nat:
  assumes "1 \<le> grid_rows w"
  shows "lut_cell_pos w k =
     (3 + int (k div nat (grid_rows w)), grid_rows w - 1 - int (k mod nat (grid_rows w)), 0)"
proof -
  have "grid_rows w = int (nat (grid_rows w))" using assms by simp
  then have "int k div grid_rows w = int (k div nat (grid_rows w))"
    and "int k mod grid_rows w = int (k mod nat (grid_rows w))"
    by (metis zdiv_int, metis zmod_int)
  then show ?thesis by (simp add: lut_cell_pos_def)
qed

lemma lut_cell_pos_decoder:
  assumes w: "2 \<le> w" and k: "k < grid_cells w"
  shows "lut_cell_pos w k = decoder_cell_pos w (grid_cells w - 1 - k)"
proof -
  define R S where "R = nat (grid_rows w)" and "S = nat (grid_split w)"
  define q r where "q = k div R" and "r = k mod R"
  have g: "grid_cells w = S * R" "0 < R" "0 < S"
    unfolding R_def S_def by (rule grid_cells_nat [OF w])+
  have rows: "1 \<le> grid_rows w" and split: "1 \<le> grid_split w"
    using grid_facts [OF w] by simp_all
  have q: "q < S" unfolding q_def r_def using k g by (simp add: div_less_iff_less_mult)
  have r: "r < R" unfolding q_def r_def using g by simp
  have kk: "k = q * R + r" unfolding q_def r_def by simp
  define A B where "A = (S - 1 - q) * R" and "B = q * R"
  have "S = (S - 1 - q) + q + 1" using q by simp
  then have "S * R = ((S - 1 - q) + q + 1) * R" by simp
  then have "S * R = A + B + R"
    unfolding A_def B_def by (simp only: add_mult_distrib mult_1)
  moreover have "k = B + r" unfolding A_def B_def by (rule kk)
  ultimately have "S * R - 1 - k = A + (R - 1 - r)"
    using r by linarith
  then have e: "grid_cells w - 1 - k = (S - 1 - q) * R + (R - 1 - r)"
    unfolding A_def B_def g(1) .
  have c: "R - 1 - r < R" using r by simp
  note dm = div_mod_unique [OF e c]
  have x: "3 + int q = grid_split w + 2 - int (S - 1 - q)"
    using q split unfolding R_def S_def by linarith
  have y: "grid_rows w - 1 - int r = int (R - 1 - r)"
    using r rows unfolding R_def S_def by linarith
  have "lut_cell_pos w k = (3 + int q, grid_rows w - 1 - int r, 0)"
    unfolding q_def r_def R_def S_def by (rule lut_cell_pos_nat [OF rows])
  moreover have "decoder_cell_pos w (grid_cells w - 1 - k) =
      (grid_split w + 2 - int ((grid_cells w - 1 - k) div R),
       int ((grid_cells w - 1 - k) mod R), 0)"
    unfolding R_def S_def by (rule decoder_cell_pos_nat [OF rows])
  ultimately show ?thesis by (simp only: dm x y)
qed

section \<open>The output accumulators\<close>

lemma lut_accumulators:
  assumes ok: "index_ok c0"
    and gs: "logic_gates c0 = map (decoder_gate w (grid_cells w)) [0..<3 * w + grid_cells w]"
  shows "index_ok (fold (\<lambda>oy lut. add_logic lut (LogicGate_init (0, oy, 0) ''or'' ''22ee22''))
            (range_up (int w) (int w + int m)) c0) \<and>
         logic_gates (fold (\<lambda>oy lut. add_logic lut (LogicGate_init (0, oy, 0) ''or'' ''22ee22''))
            (range_up (int w) (int w + int m)) c0) =
           map (lut_gate w m f 0) [0..<3 * w + grid_cells w + m]"
proof -
  let ?N = "3 * w + grid_cells w"
  let ?ys = "range_up (int w) (int w + int m)"
  let ?add = "\<lambda>oy lut. add_logic lut (LogicGate_init (0, oy, 0) ''or'' ''22ee22'')"
  let ?I = "\<lambda>j c. index_ok c \<and> logic_gates c = map (lut_gate w m f 0) [0..<?N + j]"
  have len: "length ?ys = m" by (simp add: length_range_up)
  have "?I (length ?ys) (fold ?add ?ys c0)"
  proof (rule fold_indexed)
    have "map (lut_gate w m f 0) [0..<?N] = map (decoder_gate w (grid_cells w)) [0..<?N]"
      by (rule map_cong [OF refl]) (simp add: lut_gate_decoder)
    then show "?I 0 c0" using ok gs by simp
    show "?I (Suc j) (?add (?ys ! j) c)" if j: "j < length ?ys" and I: "?I j c" for j c
    proof -
      have y: "?ys ! j = int w + int j" using j len by (simp add: nth_range_up)
      have "lut_gate w m f 0 (?N + j) = LogicGate_init (0, int w + int j, 0) ''or'' ''22ee22''"
        by (simp add: lut_gate_def LogicGate_init_or)
      then have "logic_gates (?add (?ys ! j) c) = map (lut_gate w m f 0) [0..<?N + Suc j]"
        using I by (simp add: y)
      then show ?thesis using I by (simp add: index_ok_add_logic)
    qed
  qed
  then show ?thesis by (simp only: len)
qed

section \<open>One address of the lookup table\<close>

lemma lut_targets_lookup:
  assumes "\<And>y. G (0, y, 0) = lut_slot w m y"
  shows "concat (map (\<lambda>b. case G b of None \<Rightarrow> [] | Some t \<Rightarrow> [t])
           (map (\<lambda>(off, ch). (0, int off - int w, 0))
              (filter (\<lambda>(off, ch). ch = CHR ''1'') (enumerate m (rev s))))) =
         lut_targets w m s"
  by (simp add: lut_targets_def comp_def case_prod_unfold assms)

lemma lut_cell_step:
  assumes w: "2 \<le> w" and k: "k < grid_cells w" and ok: "index_ok c"
    and gs: "logic_gates c = map (lut_gate w m f k) [0..<3 * w + grid_cells w + m]"
    and p: "(ox, oy, 0) = lut_cell_pos w k"
  shows "\<exists>c'. lut_cell w m f ox oy (c, k) = Inr (c', Suc k) \<and> index_ok c' \<and>
           logic_gates c' = map (lut_gate w m f (Suc k)) [0..<3 * w + grid_cells w + m]"
proof -
  let ?N = "3 * w + grid_cells w + m"
  let ?i = "3 * w + (grid_cells w - 1 - k)"
  let ?a = "(ox, oy, 0)"
  let ?outs = "map (\<lambda>(off, ch). (0, int off - int w, 0))
                 (filter (\<lambda>(off, ch). ch = CHR ''1'') (enumerate m (rev (f k m))))"
  let ?ts = "lut_targets w m (f k m)"
  have len: "length (logic_gates c) = ?N" by (simp add: gs)
  have pos: "position (logic_gates c ! j) = position (lut_gate w m f 0 j)"
    if "j < length (logic_gates c)" for j
    using that by (simp add: gs position_lut_gate)
  have i: "?i < 3 * w + grid_cells w" "3 * w \<le> ?i" "?i - 3 * w = grid_cells w - 1 - k"
    using k by simp_all
  have "position (lut_gate w m f 0 ?i) = decoder_cell_pos w (grid_cells w - 1 - k)"
    using i by (simp add: position_lut_gate position_decoder_gate)
  then have "position (lut_gate w m f 0 ?i) = ?a"
    using lut_cell_pos_decoder [OF w k] p by simp
  moreover have "get_block c (position (lut_gate w m f 0 ?i)) = Some ?i"
    using w ok _ pos
  proof (rule lut_lookup)
    show "length (logic_gates c) \<le> ?N" by (simp add: len)
    show "?i < length (logic_gates c)" using i len by simp
  qed
  ultimately have l_a: "get_block c ?a = Some ?i" by simp
  have l_x0: "get_block c (0, y, 0) = lut_slot w m y" for y
    using w ok len pos by (rule lut_lookup_x0)
  have sp: "slot_pairs (get_block c) (arity_pairs [?a] ?outs) = map (Pair ?i) ?ts"
    unfolding arity_pairs_single slot_pairs_fan_out [of "get_block c" ?a ?i, OF l_a]
    by (simp only: lut_targets_lookup [of "get_block c", OF l_x0])
  have "\<not> arity_mismatch [?a] ?outs" by (simp add: arity_mismatch_def)
  from wire_gates_closed_form [OF index_ok_slots_ok [OF ok] this]
  have wire: "wire_gates c [?a] ?outs = Inr (fold add_conn (map (Pair ?i) ?ts) c)"
    by (simp only: sp)
  define c' where "c' = fold add_conn (map (Pair ?i) ?ts) c"
  have ok': "index_ok c'" unfolding c'_def using ok by (rule index_ok_fold_add_conn)
  have nth': "logic_gates c' ! s = lut_gate w m f (Suc k) s" if s: "s < ?N" for s
  proof -
    have upd: "logic_gates c' ! s =
        (lut_gate w m f k s)\<lparr>connections := connections (lut_gate w m f k s) @
           (if s = ?i then ?ts else [])\<rparr>"
    proof -
      have "logic_gates c' ! s =
          (logic_gates c ! s)\<lparr>connections := connections (logic_gates c ! s) @
             map snd (filter (\<lambda>ij. fst ij = s) (map (Pair ?i) ?ts))\<rparr>"
        unfolding c'_def using s len by (intro nth_fold_add_conn) simp
      moreover have "logic_gates c ! s = lut_gate w m f k s" using s by (simp add: gs)
      ultimately show ?thesis by (simp only: fan_out_targets)
    qed
    show ?thesis
    proof (cases "s = ?i")
      case True
      then show ?thesis unfolding upd using i k by (simp add: lut_gate_def)
    next
      case False
      then have "(grid_cells w - 1 - (s - 3 * w) < k) = (grid_cells w - 1 - (s - 3 * w) < Suc k)"
        if "3 * w \<le> s" "s < 3 * w + grid_cells w"
        using that by auto
      then show ?thesis unfolding upd using False by (simp add: lut_gate_def)
    qed
  qed
  have gs': "logic_gates c' = map (lut_gate w m f (Suc k)) [0..<?N]"
  proof (rule nth_equalityI)
    show "length (logic_gates c') = length (map (lut_gate w m f (Suc k)) [0..<?N])"
      by (simp add: c'_def len)
    show "logic_gates c' ! s = map (lut_gate w m f (Suc k)) [0..<?N] ! s"
      if "s < length (logic_gates c')" for s
    proof -
      have "s < ?N" using that by (simp add: c'_def len)
      then show ?thesis using nth' [of s] by simp
    qed
  qed
  have "lut_cell w m f ox oy (c, k) = Inr (c', Suc k)"
    unfolding lut_cell_def Let_def prod.case wire c'_def [symmetric] by simp
  then show ?thesis using ok' gs' by blast
qed

section \<open>The lookup table\<close>

lemma lut_grid_nth:
  assumes w: "2 \<le> w" and k: "k < grid_cells w"
  shows "List.product (range_up 3 (grid_split w + 3)) (range_down (grid_rows w - 1) (- 1)) ! k =
     (3 + int (k div nat (grid_rows w)), grid_rows w - 1 - int (k mod nat (grid_rows w)))"
proof -
  let ?R = "nat (grid_rows w)" and ?S = "nat (grid_split w)"
  note g = grid_cells_nat [OF w]
  have len: "length (range_up 3 (grid_split w + 3)) = ?S"
    "length (range_down (grid_rows w - 1) (- 1)) = ?R"
    by (simp_all add: length_range_up length_range_down)
  have col: "k div ?R < ?S" using k g by (simp add: div_less_iff_less_mult)
  have row: "k mod ?R < ?R" using g by simp
  have "List.product (range_up 3 (grid_split w + 3)) (range_down (grid_rows w - 1) (- 1)) ! k =
      (range_up 3 (grid_split w + 3) ! (k div ?R),
       range_down (grid_rows w - 1) (- 1) ! (k mod ?R))"
    using k g by (simp add: product_nth len)
  moreover have "range_up 3 (grid_split w + 3) ! (k div ?R) = 3 + int (k div ?R)"
    using col by (intro nth_range_up) linarith
  moreover have "range_down (grid_rows w - 1) (- 1) ! (k mod ?R) =
      grid_rows w - 1 - int (k mod ?R)"
    using row by (intro nth_range_down) linarith
  ultimately show ?thesis by simp
qed

lemma lut_cells:
  assumes w: "2 \<le> w" and ok: "index_ok c1"
    and gs: "logic_gates c1 = map (lut_gate w m f 0) [0..<3 * w + grid_cells w + m]"
  shows "\<exists>c. for_each (lut_column w m f (2 ^ w) (grid_split w))
               (range_up 3 (grid_split w + 3)) (c1, 0) = Inr (c, grid_cells w) \<and>
             index_ok c \<and>
             logic_gates c =
               map (lut_gate w m f (grid_cells w)) [0..<3 * w + grid_cells w + m]"
proof -
  let ?cells = "List.product (range_up 3 (grid_split w + 3))
                  (range_down (grid_rows w - 1) (- 1))"
  let ?body = "\<lambda>(ox, oy). lut_cell w m f ox oy"
  let ?I = "\<lambda>k s. snd s = k \<and> index_ok (fst s) \<and>
              logic_gates (fst s) = map (lut_gate w m f k) [0..<3 * w + grid_cells w + m]"
  note g = grid_cells_nat [OF w]
  have rows: "1 \<le> grid_rows w" and split: "grid_split w \<noteq> 0"
    using grid_facts [OF w] by simp_all
  have col: "lut_column w m f (2 ^ w) (grid_split w) =
      (\<lambda>ox. for_each (lut_cell w m f ox) (range_down (grid_rows w - 1) (- 1)))"
    using split by (intro ext) (simp add: lut_column_def grid_rows_def)
  have flat: "for_each (lut_column w m f (2 ^ w) (grid_split w))
      (range_up 3 (grid_split w + 3)) (c1, 0) = for_each ?body ?cells (c1, 0)"
    unfolding col by (rule for_each_product)
  have len: "length ?cells = grid_cells w"
    by (simp add: length_range_down length_range_up g)
  have "\<exists>s'. for_each ?body ?cells (c1, 0) = Inr s' \<and> ?I (length ?cells) s'"
  proof (rule for_each_indexed)
    show "?I 0 (c1, 0)" using ok gs by simp
    show "\<exists>s'. ?body (?cells ! k) s = Inr s' \<and> ?I (Suc k) s'"
      if k: "k < length ?cells" and I: "?I k s" for k s
    proof -
      obtain c where s: "s = (c, k)" using I by (cases s) auto
      have k': "k < grid_cells w" using k len by simp
      let ?ox = "3 + int (k div nat (grid_rows w))"
      let ?oy = "grid_rows w - 1 - int (k mod nat (grid_rows w))"
      have nth: "?cells ! k = (?ox, ?oy)" by (rule lut_grid_nth [OF w k'])
      have "(?ox, ?oy, 0) = lut_cell_pos w k"
        by (simp add: lut_cell_pos_nat [OF rows])
      from lut_cell_step [OF w k' _ _ this, of c m f] I
      obtain c' where "lut_cell w m f ?ox ?oy (c, k) = Inr (c', Suc k)" "index_ok c'"
        "logic_gates c' = map (lut_gate w m f (Suc k)) [0..<3 * w + grid_cells w + m]"
        unfolding s by auto
      then show ?thesis unfolding nth s by (intro exI [of _ "(c', Suc k)"]) simp
    qed
  qed
  then obtain s' where s': "for_each ?body ?cells (c1, 0) = Inr s'" "?I (grid_cells w) s'"
    unfolding len by blast
  then have "s' = (fst s', grid_cells w)" by (cases s') simp
  then show ?thesis using s' flat by metis
qed

lemma create_lut_result:
  assumes w: "2 \<le> w"
  shows "\<exists>c. create_lut w m f = Inr c \<and> index_ok c \<and>
             logic_gates c =
               map (lut_gate w m f (grid_cells w)) [0..<3 * w + grid_cells w + m]"
proof -
  let ?add = "\<lambda>oy lut. add_logic lut (LogicGate_init (0, oy, 0) ''or'' ''22ee22'')"
  obtain c0 where c0: "create_decoder w = Inr c0" "index_ok c0"
      "logic_gates c0 = map (decoder_gate w (grid_cells w)) [0..<3 * w + grid_cells w]"
    using create_decoder_result [OF w] by blast
  define c1 where "c1 = fold ?add (range_up (int w) (int w + int m)) c0"
  have c1: "index_ok c1"
    "logic_gates c1 = map (lut_gate w m f 0) [0..<3 * w + grid_cells w + m]"
    unfolding c1_def using lut_accumulators [OF c0(2,3), of m f] by simp_all
  obtain c where c: "for_each (lut_column w m f (2 ^ w) (grid_split w))
        (range_up 3 (grid_split w + 3)) (c1, 0) = Inr (c, grid_cells w)"
      "index_ok c"
      "logic_gates c = map (lut_gate w m f (grid_cells w)) [0..<3 * w + grid_cells w + m]"
    using lut_cells [OF w c1] by blast
  have r: "py_round (of_nat w - 1 / 2) \<noteq> 0" by (rule grid_facts(1) [OF w])
  have "create_lut w m f = Inr c"
    using r
    by (simp add: create_lut_def c0(1) Let_def c1_def [symmetric]
        grid_split_def [symmetric] c(1))
  then show ?thesis using c by blast
qed

lemma create_lut_slots:
  assumes w: "2 \<le> w"
  shows "slot_of (create_lut w m f) (0, y, 0) = lut_slot w m y"
    and "k < grid_cells w \<Longrightarrow>
         slot_of (create_lut w m f) (lut_cell_pos w k) = Some (3 * w + (grid_cells w - 1 - k))"
    and "k < grid_cells w \<Longrightarrow>
         outputs_at (create_lut w m f) (lut_cell_pos w k) = Some (lut_targets w m (f k m))"
proof -
  let ?N = "3 * w + grid_cells w + m"
  obtain c where c: "create_lut w m f = Inr c" "index_ok c"
      "logic_gates c = map (lut_gate w m f (grid_cells w)) [0..<?N]"
    using create_lut_result [OF w] by blast
  have len: "length (logic_gates c) = ?N" by (simp add: c(3))
  have pos: "position (logic_gates c ! j) = position (lut_gate w m f 0 j)"
    if "j < length (logic_gates c)" for j
    using that by (simp add: c(3) position_lut_gate)
  show "slot_of (create_lut w m f) (0, y, 0) = lut_slot w m y"
    using lut_lookup_x0 [OF w c(2) len pos] by (simp add: slot_of_def c(1))
  assume k: "k < grid_cells w"
  let ?i = "3 * w + (grid_cells w - 1 - k)"
  have i: "?i < 3 * w + grid_cells w" "3 * w \<le> ?i" "?i - 3 * w = grid_cells w - 1 - k"
    using k by simp_all
  have inv: "grid_cells w - 1 - (grid_cells w - 1 - k) = k"
    using k by simp
  have "position (lut_gate w m f 0 ?i) = decoder_cell_pos w (grid_cells w - 1 - k)"
    using i by (simp add: position_lut_gate position_decoder_gate)
  then have "position (lut_gate w m f 0 ?i) = lut_cell_pos w k"
    using lut_cell_pos_decoder [OF w k] by simp
  moreover have "get_block c (position (lut_gate w m f 0 ?i)) = Some ?i"
    using w c(2) _ pos
  proof (rule lut_lookup)
    show "length (logic_gates c) \<le> ?N" by (simp add: len)
    show "?i < length (logic_gates c)" using i len by simp
  qed
  ultimately have l: "get_block c (lut_cell_pos w k) = Some ?i" by simp
  then show "slot_of (create_lut w m f) (lut_cell_pos w k) = Some ?i"
    by (simp add: slot_of_def c(1))
  have "logic_gates c ! ?i = lut_gate w m f (grid_cells w) ?i"
    using i by (simp add: c(3))
  moreover have "connections (lut_gate w m f (grid_cells w) ?i) = lut_targets w m (f k m)"
    using i k inv by (simp add: lut_gate_def)
  ultimately show "outputs_at (create_lut w m f) (lut_cell_pos w k) =
      Some (lut_targets w m (f k m))"
    using i by (simp add: outputs_at_def c(1) l len)
qed

text \<open>
  Which slots the gate of one address drives: for each 1 digit of the string, counted from
  its end, the slot registered at \<open>(0, m + j - w, 0)\<close>.  Accumulator \<open>j\<close> lies at
  \<open>(0, w + j, 0)\<close>.
\<close>

lemma set_slot_list: "(t \<in> set (case x of None \<Rightarrow> [] | Some u \<Rightarrow> [u])) = (x = Some t)"
  by (cases x) auto

lemma set_lut_targets:
  "set (lut_targets w m s) =
     {t. \<exists>j<length s. rev s ! j = CHR ''1'' \<and> lut_slot w m (int (m + j) - int w) = Some t}"
proof -
  have mem: "t \<in> set (lut_targets w m s) \<longleftrightarrow>
      (\<exists>a. (a, CHR ''1'') \<in> set (enumerate m (rev s)) \<and>
         Some t = lut_slot w m (int a - int w))" for t
    unfolding lut_targets_def by (simp add: case_prod_unfold set_slot_list)
  have "t \<in> set (lut_targets w m s) \<longleftrightarrow>
      (\<exists>j<length s. rev s ! j = CHR ''1'' \<and> lut_slot w m (int (m + j) - int w) = Some t)"
    (is "?L = ?R") for t
  proof
    assume ?L
    then obtain a where p: "(a, CHR ''1'') \<in> set (enumerate m (rev s))"
        "Some t = lut_slot w m (int a - int w)"
      unfolding mem by blast
    from p(1) have e: "m \<le> a" "a < length s + m" "rev s ! (a - m) = CHR ''1''"
      by (simp_all add: in_set_enumerate_eq)
    have "a - m < length s" "m + (a - m) = a" using e by simp_all
    then show ?R using p(2) e(3) by (intro exI [of _ "a - m"]) simp
  next
    assume ?R
    then obtain j where j: "j < length s" "rev s ! j = CHR ''1''"
        "lut_slot w m (int (m + j) - int w) = Some t"
      by blast
    then have "(m + j, CHR ''1'') \<in> set (enumerate m (rev s))"
      by (simp add: in_set_enumerate_eq)
    then show ?L unfolding mem using j(3) by (intro exI [of _ "m + j"]) simp
  qed
  then show ?thesis by blast
qed

lemma lut_slot_accumulator:
  "lut_slot w m (int w + int j) = (if j < m then Some (3 * w + grid_cells w + j) else None)"
  by (simp add: lut_slot_def)

lemma lut_cell_pos_2_1: "lut_cell_pos 2 1 = (3, 0, 0)"
  by (simp add: lut_cell_pos_def grid_2)

lemma square_func_1_2: "square_func 1 2 = ''01''"
  by (simp add: square_func_def zero_pad_def bin_small)

lemma lut_targets_2_2_01: "lut_targets 2 2 ''01'' = [0]"
  by (simp add: lut_targets_def lut_slot_def)

text \<open>
  Claim C2 against the code.  For address width 2, output width 2 and the default bit
  function, the string of index 1 is \<^verbatim>\<open>01\<close>: its only 1 is bit 0, so the gate that
  \<^verbatim>\<open>create_lut\<close> wires for index 1, at \<open>(3, 0, 0)\<close>, should drive accumulator 0, the OR gate
  at \<open>(0, 2, 0)\<close> in slot 10.  Its only target is slot 0, the raw input gate at
  \<open>(0, 0, 0)\<close>; it drives no accumulator.
\<close>

theorem create_lut_wrong_accumulator:
  "square_func 1 2 = ''01'' \<and>
   outputs_at (create_lut 2 2 square_func) (lut_cell_pos 2 1) = Some [0] \<and>
   lut_cell_pos 2 1 = (3, 0, 0) \<and>
   slot_of (create_lut 2 2 square_func) (0, 0, 0) = Some 0 \<and>
   slot_of (create_lut 2 2 square_func) (0, 2 + 0, 0) = Some 10 \<and>
   slot_of (create_lut 2 2 square_func) (0, 2 + 1, 0) = Some 11 \<and>
   \<not> wired (create_lut 2 2 square_func) (3, 0, 0) (0, 2 + 0, 0)"
proof -
  let ?r = "create_lut 2 2 square_func"
  have "outputs_at ?r (lut_cell_pos 2 1) = Some (lut_targets 2 2 (square_func 1 2))"
    by (rule create_lut_slots(3)) (simp_all add: grid_2)
  then have out: "outputs_at ?r (lut_cell_pos 2 1) = Some [0]"
    by (simp only: square_func_1_2 lut_targets_2_2_01)
  have s0: "slot_of ?r (0, 0, 0) = Some 0"
    and s2: "slot_of ?r (0, 2, 0) = Some 10" and s3: "slot_of ?r (0, 3, 0) = Some 11"
    by (simp_all add: create_lut_slots(1) lut_slot_def grid_2)
  have out': "outputs_at ?r (3, 0, 0) = Some [0]"
    using out by (simp only: lut_cell_pos_2_1)
  have "\<not> wired ?r (3, 0, 0) (0, 2, 0)"
    by (simp add: wired_def out' s2)
  then show ?thesis
    using out s0 s2 s3 by (simp only: square_func_1_2 lut_cell_pos_2_1) simp
qed

lemma lut_slot_eq_accumulator:
  assumes "j < m"
  shows "(lut_slot w m y = Some (3 * w + grid_cells w + j)) = (y = int w + int j)"
proof -
  have "3 * nat y \<noteq> 3 * w + grid_cells w + j" if "0 \<le> y" "y < int w"
    using that by linarith
  then show ?thesis using assms by (auto simp: lut_slot_def)
qed

text \<open>
  The gate that \<^verbatim>\<open>create_lut\<close> wires for address \<open>k\<close> drives accumulator \<open>j\<close> exactly when
  the string \<open>f k m\<close> has a 1 at the position \<open>i\<close> from its end with \<open>m + i = 2 * w + j\<close>:
  the positions agree (\<open>i = j\<close>) only for \<open>m = 2 * w\<close>.
\<close>

lemma create_lut_drives_accumulator:
  assumes w: "2 \<le> w" and k: "k < grid_cells w" and j: "j < m"
  shows "wired (create_lut w m f) (lut_cell_pos w k) (0, int w + int j, 0) =
           (\<exists>i<length (f k m). rev (f k m) ! i = CHR ''1'' \<and> m + i = 2 * w + j)"
proof -
  have acc: "slot_of (create_lut w m f) (0, int w + int j, 0) = Some (3 * w + grid_cells w + j)"
    using j by (simp add: create_lut_slots(1) [OF w] lut_slot_accumulator)
  have eq: "(int m + int i = 2 * int w + int j) = (m + i = 2 * w + j)" for i
    by linarith
  show ?thesis
    unfolding wired_def create_lut_slots(3) [OF w k] acc
    by (simp add: set_lut_targets lut_slot_eq_accumulator [OF j] eq)
qed

lemma create_lut_double_width:
  assumes "2 \<le> w" and "k < grid_cells w" and "j < 2 * w"
  shows "wired (create_lut w (2 * w) f) (lut_cell_pos w k) (0, int w + int j, 0) =
           (j < length (f k (2 * w)) \<and> rev (f k (2 * w)) ! j = CHR ''1'')"
  unfolding create_lut_drives_accumulator [OF assms] by auto

section \<open>The lookup table: no dangling targets\<close>

lemma for_each_invariant:
  assumes "P s" and "\<And>x s. x \<in> set xs \<Longrightarrow> P s \<Longrightarrow> \<exists>s'. body x s = Inr s' \<and> P s'"
  shows "\<exists>s'. for_each body xs s = Inr s' \<and> P s'"
proof -
  have "\<exists>s'. for_each body xs s = Inr s' \<and> (\<lambda>k. P) (length xs) s'"
    using assms by (intro for_each_indexed) simp_all
  then show ?thesis .
qed

lemma targets_ok_decoder:
  assumes "logic_gates c = map (decoder_gate w k) [0..<3 * w + k]"
  shows "targets_ok c"
proof -
  have "t < 3 * w + k" if "s < 3 * w + k" "t \<in> set (connections (decoder_gate w k s))" for s t
  proof (cases "s < 3 * w \<and> s mod 3 = 0")
    case True
    then have "s + 2 < 3 * w" by presburger
    then show ?thesis using that True by (auto simp: decoder_gate_def)
  next
    case False
    then show ?thesis using that by (auto simp: decoder_gate_def split: if_splits)
  qed
  then show ?thesis
    unfolding targets_ok_def assms by auto
qed

lemma create_decoder_built:
  assumes "create_decoder w = Inr c"
  shows "index_ok c \<and> targets_ok c"
proof (cases "2 \<le> w")
  case True
  from create_decoder_result [OF True] assms targets_ok_decoder show ?thesis by auto
next
  case False
  then show ?thesis using assms create_decoder_small [of w] by simp
qed

lemma accumulators_built:
  assumes "index_ok c \<and> targets_ok c"
  shows "index_ok (fold (\<lambda>oy lut. add_logic lut (LogicGate_init (0, oy, 0) ''or'' ''22ee22'')) ys c) \<and>
         targets_ok (fold (\<lambda>oy lut. add_logic lut (LogicGate_init (0, oy, 0) ''or'' ''22ee22'')) ys c)"
  using assms
proof (induction ys arbitrary: c)
  case Nil
  then show ?case by simp
next
  case (Cons y ys)
  have "index_ok (add_logic c (LogicGate_init (0, y, 0) ''or'' ''22ee22'')) \<and>
        targets_ok (add_logic c (LogicGate_init (0, y, 0) ''or'' ''22ee22''))"
    using Cons.prems by (simp add: index_ok_add_logic targets_ok_add_logic)
  then show ?case using Cons.IH by simp
qed

lemma lut_cell_built:
  assumes "index_ok (fst s) \<and> targets_ok (fst s)"
  shows "\<exists>s'. lut_cell w m f ox oy s = Inr s' \<and> index_ok (fst s') \<and> targets_ok (fst s')"
proof -
  obtain c k where s: "s = (c, k)" by (cases s)
  let ?outs = "map (\<lambda>(off, ch). (0, int off - int w, 0))
                 (filter (\<lambda>(off, ch). ch = CHR ''1'') (enumerate m (rev (f k m))))"
  have ok: "index_ok c" "targets_ok c" using assms s by simp_all
  have "\<not> arity_mismatch [(ox, oy, 0)] ?outs" by (simp add: arity_mismatch_def)
  from wire_gates_closed_form [OF index_ok_slots_ok [OF ok(1)] this]
  obtain c' where c': "wire_gates c [(ox, oy, 0)] ?outs = Inr c'" by blast
  from targets_ok_wire_gates [OF ok c'] have "index_ok c' \<and> targets_ok c'" .
  then show ?thesis using c' by (simp add: s lut_cell_def Let_def)
qed

lemma lut_column_built:
  assumes "index_ok (fst s) \<and> targets_ok (fst s)" and "split \<noteq> 0"
  shows "\<exists>s'. lut_column w m f n split ox s = Inr s' \<and> index_ok (fst s') \<and> targets_ok (fst s')"
  unfolding lut_column_def using assms
  by (simp only: if_False) (rule for_each_invariant, simp, rule lut_cell_built)

lemma create_lut_built:
  assumes "2 \<le> w"
  shows "\<exists>c. create_lut w m f = Inr c \<and> index_ok c \<and> targets_ok c"
proof -
  obtain c0 where c0: "create_decoder w = Inr c0"
    using create_decoder_result [OF assms] by blast
  let ?c1 = "fold (\<lambda>oy lut. add_logic lut (LogicGate_init (0, oy, 0) ''or'' ''22ee22''))
               (range_up (int w) (int w + int m)) c0"
  have c1: "index_ok ?c1 \<and> targets_ok ?c1"
    using create_decoder_built [OF c0] by (rule accumulators_built)
  have r: "py_round (of_nat w - 1 / 2) \<noteq> 0" and split: "grid_split w \<noteq> 0"
    using grid_facts [OF assms] by simp_all
  have "\<exists>s'. for_each (lut_column w m f (2 ^ w) (grid_split w))
          (range_up 3 (grid_split w + 3)) (?c1, 0) = Inr s' \<and>
          index_ok (fst s') \<and> targets_ok (fst s')"
    using c1 split by (intro for_each_invariant lut_column_built) simp_all
  then obtain s' where s': "for_each (lut_column w m f (2 ^ w) (grid_split w))
      (range_up 3 (grid_split w + 3)) (?c1, 0) = Inr s'" "index_ok (fst s')" "targets_ok (fst s')"
    by blast
  have "create_lut w m f = Inr (fst s')"
    using r s'(1)
    by (simp add: create_lut_def c0 Let_def grid_split_def [symmetric] split_beta)
  then show ?thesis using s' by blast
qed

lemma create_lut_small: "w < 2 \<Longrightarrow> create_lut w m f = Inl ZeroDivisionError"
  by (simp add: create_lut_def create_decoder_small)

lemma to_blueprint_nth:
  "i < length (logic_gates c) \<Longrightarrow>
   to_blueprint c ! i =
     \<lparr> child_color = color (logic_gates c ! i), controllers = connections (logic_gates c ! i),
       child_id = i, child_mode = mode (logic_gates c ! i),
       child_pos = position (logic_gates c ! i) \<rparr>"
  by (simp add: to_blueprint_def nth_enumerate_eq)

lemma length_to_blueprint: "length (to_blueprint c) = length (logic_gates c)"
  by (simp add: to_blueprint_def)

lemma to_blueprint_targets:
  assumes "targets_ok c" and "ch \<in> set (to_blueprint c)" and "t \<in> set (controllers ch)"
  shows "t < length (to_blueprint c) \<and> child_id (to_blueprint c ! t) = t"
proof -
  obtain i where i: "i < length (logic_gates c)" "ch = to_blueprint c ! i"
    using assms(2) by (auto simp: in_set_conv_nth length_to_blueprint)
  then have "t \<in> set (connections (logic_gates c ! i))"
    using assms(3) by (simp add: to_blueprint_nth)
  moreover have "logic_gates c ! i \<in> set (logic_gates c)" using i by simp
  ultimately have "t < length (logic_gates c)"
    using assms(1) unfolding targets_ok_def by blast
  then show ?thesis by (simp add: length_to_blueprint to_blueprint_nth)
qed

text \<open>
  Claim C8.  Whenever \<^verbatim>\<open>create_lut\<close> returns a circuit, every target in the
  \<^verbatim>\<open>connections\<close> list of every gate is an index into the list that \<^verbatim>\<open>to_blueprint\<close>
  exports, and the record at that index carries the target as its \<^verbatim>\<open>id\<close>.  The exported
  list has one record per gate, in order, whose \<^verbatim>\<open>controllers\<close> are the gate's
  connections, so the same holds of every target of every exported record.  The call does
  return for every address width \<open>w \<ge> 2\<close>, every output width and every bit function.
\<close>

theorem create_lut_no_dangling:
  "(\<forall>c. create_lut w m f = Inr c \<longrightarrow>
      (\<forall>g \<in> set (logic_gates c). \<forall>t \<in> set (connections g).
         t < length (to_blueprint c) \<and> child_id (to_blueprint c ! t) = t) \<and>
      length (to_blueprint c) = length (logic_gates c) \<and>
      map controllers (to_blueprint c) = map connections (logic_gates c) \<and>
      (\<forall>ch \<in> set (to_blueprint c). \<forall>t \<in> set (controllers ch).
         t < length (to_blueprint c) \<and> child_id (to_blueprint c ! t) = t)) \<and>
   (2 \<le> w \<longrightarrow> (\<exists>c. create_lut w m f = Inr c))"
proof (intro conjI allI impI ballI)
  fix c
  assume c: "create_lut w m f = Inr c"
  have "2 \<le> w" using c create_lut_small [of w m f] by (cases "2 \<le> w") simp_all
  then have ok: "targets_ok c" using create_lut_built [of w m f] c by auto
  show "length (to_blueprint c) = length (logic_gates c)" by (rule length_to_blueprint)
  show "map controllers (to_blueprint c) = map connections (logic_gates c)"
    by (rule nth_equalityI) (simp_all add: length_to_blueprint to_blueprint_nth)
  {
    fix g t
    assume "g \<in> set (logic_gates c)" and "t \<in> set (connections g)"
    then have "t < length (logic_gates c)" using ok unfolding targets_ok_def by blast
    then show "t < length (to_blueprint c)" and "child_id (to_blueprint c ! t) = t"
      by (simp_all add: length_to_blueprint to_blueprint_nth)
  }
  {
    fix ch t
    assume "ch \<in> set (to_blueprint c)" and "t \<in> set (controllers ch)"
    then show "t < length (to_blueprint c)" and "child_id (to_blueprint c ! t) = t"
      using to_blueprint_targets [OF ok] by simp_all
  }
next
  assume "2 \<le> w"
  then show "\<exists>c. create_lut w m f = Inr c" using create_lut_built [of w m f] by blast
qed

theorem create_lut_no_dangling_witness:
  "\<exists>c. create_lut 2 2 square_func = Inr c \<and>
       list_all (\<lambda>g. list_all (\<lambda>t. t < length (to_blueprint c)) (connections g))
         (logic_gates c) \<and>
       list_all (\<lambda>ch. list_all (\<lambda>t. t < length (to_blueprint c)) (controllers ch))
         (to_blueprint c)"
  using create_lut_no_dangling [of 2 2 square_func]
  by (auto simp: list_all_iff)

end
